theory Spec2Isabelle
  imports Main
begin

section \<open>Values, objects and the reactive store\<close>

text \<open>
  The development follows \<^verbatim>\<open>src/core/observer/watcher.js\<close>. JavaScript objects are
  held in stores indexed by reference; a method of the class \<^verbatim>\<open>Watcher\<close> is a
  function that takes the reference of \<^verbatim>\<open>this\<close> and the world, and returns the
  world it leaves behind.
\<close>

type_synonym addr = nat
type_synonym depref = nat
type_synonym wref = nat
type_synonym vmref = nat
type_synonym fnid = nat

datatype jsval =
    VUndefined
  | VNull
  | VBool bool
  | VNum int
  | VNaN
  | VStr string
  | VFun fnid
  | VRef addr

text \<open>The operator \<^verbatim>\<open>!==\<close>: primitives compare by value, objects and functions by
  reference, and \<^verbatim>\<open>NaN\<close> differs from everything, itself included.\<close>

fun strict_neq :: "jsval \<Rightarrow> jsval \<Rightarrow> bool" where
  "strict_neq VNaN b = True"
| "strict_neq a VNaN = True"
| "strict_neq a b = (a \<noteq> b)"

text \<open>The operator \<^verbatim>\<open>!!\<close> on an option field (truthiness of a value).\<close>

fun truthy :: "jsval \<Rightarrow> bool" where
  "truthy VUndefined = False"
| "truthy VNull = False"
| "truthy (VBool b) = b"
| "truthy (VNum n) = (n \<noteq> 0)"
| "truthy VNaN = False"
| "truthy (VStr s) = (s \<noteq> [])"
| "truthy (VFun f) = True"
| "truthy (VRef a) = True"

text \<open>
  A composite on the heap: an array with its elements in index order, or a plain object
  with its own enumerable properties in key order. A property carries the publishers
  whose \<^verbatim>\<open>depend()\<close> its reactive getter calls when it is read.
\<close>

datatype jsbody =
    Arr "jsval list"
  | Obj "(string \<times> jsval \<times> depref list) list"

record jsobj =
  extensible :: bool
  ob :: "depref option"
  body :: jsbody

text \<open>The class \<^verbatim>\<open>Dep\<close> (publisher): its id and its registry of subscribers.\<close>

record dep =
  id_dep :: nat
  subs :: "wref list"

datatype getterfn = GFn fnid | GNoop

datatype expOrFn = Fn fnid | Path string

text \<open>The fields of \<^verbatim>\<open>Watcher\<close> (lines 22 to 37 of the source).\<close>

record watcher =
  vm :: vmref
  expression :: string
  cb :: fnid
  id_w :: nat
  deep :: bool
  user :: bool
  lazy :: bool
  sync :: bool
  dirty :: bool
  active :: bool
  deps :: "depref list"
  newDeps :: "depref list"
  depIds :: "nat set"
  newDepIds :: "nat set"
  getter :: getterfn
  value_w :: jsval

record component =
  vm_watchers :: "wref list"
  vm_isBeingDestroyed :: bool

record world =
  watchers :: "wref \<Rightarrow> watcher"
  depStore :: "depref \<Rightarrow> dep"
  vms :: "vmref \<Rightarrow> component"
  heap :: "(addr \<times> jsobj) list"
  targetStack :: "wref list"
  queue :: "wref list"
  warnings :: "(string \<times> vmref) list"
  console :: "expOrFn list"
  uid :: nat
  seenObjects :: "nat set"
  walked :: "addr list"

type_synonym 'a completion = "(jsval + 'a) \<times> world"

text \<open>
  Code that the watcher calls but does not contain: the functions a program passes in
  (computations and callbacks, named by a \<^typ>\<open>fnid\<close>), the path parser, the global
  \<^verbatim>\<open>config.errorHandler\<close> and the build mode \<^verbatim>\<open>process.env.NODE_ENV\<close>. A call
  either returns (\<open>Inr\<close>) or throws a value (\<open>Inl\<close>).
\<close>

record env =
  fn_call :: "fnid \<Rightarrow> vmref \<Rightarrow> world \<Rightarrow> jsval completion"
  cb_call :: "fnid \<Rightarrow> vmref \<Rightarrow> jsval \<Rightarrow> jsval \<Rightarrow> world \<Rightarrow> unit completion"
  fn_text :: "fnid \<Rightarrow> string"
  parsePath :: "string \<Rightarrow> fnid option"
  errorHandler :: "(jsval \<Rightarrow> vmref \<Rightarrow> world \<Rightarrow> unit completion) option"
  production :: bool

definition upd_watcher :: "wref \<Rightarrow> (watcher \<Rightarrow> watcher) \<Rightarrow> world \<Rightarrow> world" where
  "upd_watcher w f s = s\<lparr>watchers := (watchers s)(w := f (watchers s w))\<rparr>"

definition upd_dep :: "depref \<Rightarrow> (dep \<Rightarrow> dep) \<Rightarrow> world \<Rightarrow> world" where
  "upd_dep d f s = s\<lparr>depStore := (depStore s)(d := f (depStore s d))\<rparr>"

section \<open>Collaborators\<close>

text \<open>
  Modelled from the spec: \<^verbatim>\<open>dep.js\<close> is not among the sources. The publisher keeps
  subscriber references in registry order; \<^verbatim>\<open>addSub\<close> adds one and \<^verbatim>\<open>removeSub\<close>
  takes one out.
\<close>

definition addSub :: "depref \<Rightarrow> wref \<Rightarrow> world \<Rightarrow> world" where
  "addSub d w s = upd_dep d (\<lambda>p. p\<lparr>subs := subs p @ [w]\<rparr>) s"

definition removeSub :: "depref \<Rightarrow> wref \<Rightarrow> world \<Rightarrow> world" where
  "removeSub d w s = upd_dep d (\<lambda>p. p\<lparr>subs := remove1 w (subs p)\<rparr>) s"

text \<open>
  Modelled from the spec: the evaluation-context stack of \<^verbatim>\<open>dep.js\<close>, a strict
  last-in first-out stack whose top is the subscriber now evaluating
  (\<^verbatim>\<open>pushTarget\<close>, \<^verbatim>\<open>popTarget\<close>, \<^verbatim>\<open>Dep.target\<close>).
\<close>

definition pushTarget :: "wref \<Rightarrow> world \<Rightarrow> world" where
  "pushTarget w s = s\<lparr>targetStack := w # targetStack s\<rparr>"

definition popTarget :: "world \<Rightarrow> world" where
  "popTarget s = s\<lparr>targetStack := (case targetStack s of [] \<Rightarrow> [] | t # rest \<Rightarrow> rest)\<rparr>"

definition target :: "world \<Rightarrow> wref option" where
  "target s = (case targetStack s of [] \<Rightarrow> None | t # rest \<Rightarrow> Some t)"

text \<open>
  Modelled from the spec: \<^verbatim>\<open>queueWatcher\<close> of \<^verbatim>\<open>scheduler.js\<close> accepts a
  subscriber for a later flush and keeps one entry for each subscriber.
\<close>

definition queueWatcher :: "wref \<Rightarrow> world \<Rightarrow> world" where
  "queueWatcher w s = (if w \<in> set (queue s) then s else s\<lparr>queue := queue s @ [w]\<rparr>)"

text \<open>Modelled from the spec: \<^verbatim>\<open>warn\<close>, the diagnostics sink, records the message
  and the context object.\<close>

definition warn :: "string \<Rightarrow> vmref \<Rightarrow> world \<Rightarrow> world" where
  "warn msg v s = s\<lparr>warnings := warnings s @ [(msg, v)]\<rparr>"

text \<open>Modelled from the spec: \<^verbatim>\<open>remove\<close>, the array-removal utility.\<close>

definition remove :: "'a list \<Rightarrow> 'a \<Rightarrow> 'a list" where
  "remove arr item = remove1 item arr"

text \<open>Modelled from the spec: \<^verbatim>\<open>isObject\<close>, the test for a composite (object or
  array) value.\<close>

fun isObject :: "jsval \<Rightarrow> bool" where
  "isObject (VRef a) = True"
| "isObject v = False"

section \<open>Dependency registration and diffing\<close>

text \<open>\<^verbatim>\<open>addDep\<close>, lines 114 to 123.\<close>

definition addDep :: "wref \<Rightarrow> depref \<Rightarrow> world \<Rightarrow> world" where
  "addDep w d s =
     (let i = id_dep (depStore s d) in
      if i \<notin> newDepIds (watchers s w) then
        let s1 = upd_watcher w (\<lambda>x. x\<lparr>newDepIds := insert i (newDepIds x)\<rparr>) s;
            s2 = upd_watcher w (\<lambda>x. x\<lparr>newDeps := newDeps x @ [d]\<rparr>) s1
        in if i \<notin> depIds (watchers s2 w) then addSub d w s2 else s2
      else s)"

text \<open>
  \<^verbatim>\<open>cleanupDeps\<close>, lines 128 to 144. The loop runs over \<^verbatim>\<open>this.deps\<close> from the
  last index down to 0. The two id sets and the two arrays are distinct containers made
  by the constructor; exchanging the references and emptying the one now called
  \<^verbatim>\<open>newDepIds\<close> (\<^verbatim>\<open>newDeps\<close>) is the assignment below.
\<close>

definition cleanup_step :: "wref \<Rightarrow> depref \<Rightarrow> world \<Rightarrow> world" where
  "cleanup_step w d s =
     (if id_dep (depStore s d) \<notin> newDepIds (watchers s w) then removeSub d w s else s)"

definition cleanupDeps :: "wref \<Rightarrow> world \<Rightarrow> world" where
  "cleanupDeps w s =
     (let s1 = fold (cleanup_step w) (rev (deps (watchers s w))) s;
          tmp = depIds (watchers s1 w);
          s2 = upd_watcher w (\<lambda>x. x\<lparr>depIds := newDepIds x\<rparr>) s1;
          s3 = upd_watcher w (\<lambda>x. x\<lparr>newDepIds := tmp\<rparr>) s2;
          s4 = upd_watcher w (\<lambda>x. x\<lparr>newDepIds := {}\<rparr>) s3;
          tmp2 = deps (watchers s4 w);
          s5 = upd_watcher w (\<lambda>x. x\<lparr>deps := newDeps x\<rparr>) s4;
          s6 = upd_watcher w (\<lambda>x. x\<lparr>newDeps := tmp2\<rparr>) s5
      in upd_watcher w (\<lambda>x. x\<lparr>newDeps := []\<rparr>) s6)"

text \<open>
  Modelled from the spec: \<^verbatim>\<open>Dep.depend\<close> registers an edge from the publisher to
  the subscriber on top of the evaluation-context stack, if there is one, through that
  subscriber's \<^verbatim>\<open>addDep\<close>.
\<close>

definition dep_depend :: "depref \<Rightarrow> world \<Rightarrow> world" where
  "dep_depend d s = (case target s of None \<Rightarrow> s | Some t \<Rightarrow> addDep t d s)"

section \<open>Deep traversal\<close>

text \<open>
  The property reads of one composite in the order the loops of \<^verbatim>\<open>_traverse\<close> make
  them: \<^verbatim>\<open>val[i]\<close> for an array and \<^verbatim>\<open>val[keys[i]]\<close> for an object, with
  \<^verbatim>\<open>i\<close> running from the last index down to 0. Each read yields the value and the
  publishers its reactive getter touches (none for an array element).
\<close>

fun reads :: "jsbody \<Rightarrow> (jsval \<times> depref list) list" where
  "reads (Arr xs) = rev (map (\<lambda>v. (v, [])) xs)"
| "reads (Obj kvs) =
     rev (map (\<lambda>k. case map_of kvs k of Some p \<Rightarrow> p | None \<Rightarrow> (VUndefined, []))
              (map fst kvs))"

text \<open>Modelled from the spec: reading an instrumented property calls \<^verbatim>\<open>depend()\<close>
  on the publishers of that property.\<close>

definition touch :: "depref list \<Rightarrow> world \<Rightarrow> world" where
  "touch ds s = fold dep_depend ds s"

text \<open>
  The two loops \<^verbatim>\<open>while (i--) _traverse(val[i], seen)\<close> over the reads of one
  composite: each read fires its reactive getter, then the walk descends into the value
  read. The parameter \<open>f\<close> is the recursive call.
\<close>

fun traverse_loop ::
  "(jsval \<Rightarrow> world \<Rightarrow> world option) \<Rightarrow> (jsval \<times> depref list) list \<Rightarrow> world \<Rightarrow> world option" where
  "traverse_loop f [] s = Some s"
| "traverse_loop f ((v, ds) # rs) s =
     (case f v (touch ds s) of None \<Rightarrow> None | Some t \<Rightarrow> traverse_loop f rs t)"

text \<open>
  \<^verbatim>\<open>_traverse\<close>, lines 258 to 280 (a name cannot start with an underscore here). The
  first argument bounds the depth of the recursion: \<open>None\<close> is a walk that does not
  come back within that depth. \<^verbatim>\<open>seen\<close> is always the module's \<^verbatim>\<open>seenObjects\<close>.
  A value that is neither an array nor an object, and a composite that is not
  extensible, end the call at line 262; so does, here, a reference to nothing on the
  heap, which a JavaScript value cannot be. The field \<open>walked\<close> records each composite
  whose properties the walk goes on to read, at the moment it passes the \<^verbatim>\<open>__ob__\<close>
  test of lines 264 to 271.
\<close>

primrec traverse_inner :: "nat \<Rightarrow> jsval \<Rightarrow> world \<Rightarrow> world option" where
  "traverse_inner 0 val s = None"
| "traverse_inner (Suc n) val s =
     (case val of
        VRef a \<Rightarrow>
          (case map_of (heap s) a of
             None \<Rightarrow> Some s
           | Some obj \<Rightarrow>
               if \<not> extensible obj then Some s
               else if (case ob obj of None \<Rightarrow> False
                        | Some d \<Rightarrow> id_dep (depStore s d) \<in> seenObjects s) then Some s
               else
                 let s1 = (case ob obj of None \<Rightarrow> s
                           | Some d \<Rightarrow>
                               s\<lparr>seenObjects := insert (id_dep (depStore s d)) (seenObjects s)\<rparr>);
                     s2 = s1\<lparr>walked := walked s1 @ [a]\<rparr>
                 in traverse_loop (traverse_inner n) (reads (body obj)) s2)
      | _ \<Rightarrow> Some s)"

text \<open>\<^verbatim>\<open>traverse\<close>, lines 253 to 256.\<close>

definition traverse :: "nat \<Rightarrow> jsval \<Rightarrow> world \<Rightarrow> world option" where
  "traverse n val s = traverse_inner n val (s\<lparr>seenObjects := {}\<rparr>)"

section \<open>Evaluation\<close>

definition call_getter :: "env \<Rightarrow> getterfn \<Rightarrow> vmref \<Rightarrow> world \<Rightarrow> jsval completion" where
  "call_getter E g v s = (case g of GNoop \<Rightarrow> (Inr VUndefined, s) | GFn f \<Rightarrow> fn_call E f v s)"

text \<open>
  \<^verbatim>\<open>get\<close>, lines 91 to 109. A throw of the getter leaves the method at line 98:
  lines 103 to 108 do not run.
\<close>

definition get :: "env \<Rightarrow> nat \<Rightarrow> wref \<Rightarrow> world \<Rightarrow> jsval completion option" where
  "get E n w s =
     (let s1 = pushTarget w s in
      case call_getter E (getter (watchers s1 w)) (vm (watchers s1 w)) s1 of
        (Inl e, s2) \<Rightarrow> Some (Inl e, s2)
      | (Inr val, s2) \<Rightarrow>
          (case (if deep (watchers s2 w) then traverse n val s2 else Some s2) of
             None \<Rightarrow> None
           | Some s3 \<Rightarrow> Some (Inr val, cleanupDeps w (popTarget s3))))"

section \<open>Invalidation and scheduling\<close>

definition watcher_error_msg :: "string \<Rightarrow> string" where
  "watcher_error_msg e = ''Error in watcher '' @ [CHR 0x22] @ e @ [CHR 0x22]"

text \<open>\<^verbatim>\<open>run\<close>, lines 165 to 205.\<close>

definition run :: "env \<Rightarrow> nat \<Rightarrow> wref \<Rightarrow> world \<Rightarrow> unit completion option" where
  "run E n w s =
     (if active (watchers s w) then
        (case get E n w s of
           None \<Rightarrow> None
         | Some (Inl e, s1) \<Rightarrow> Some (Inl e, s1)
         | Some (Inr val, s1) \<Rightarrow>
             if strict_neq val (value_w (watchers s1 w)) \<or> isObject val \<or> deep (watchers s1 w)
             then
               let oldValue = value_w (watchers s1 w);
                   s2 = upd_watcher w (\<lambda>x. x\<lparr>value_w := val\<rparr>) s1
               in if user (watchers s2 w) then
                    (case cb_call E (cb (watchers s2 w)) (vm (watchers s2 w)) val oldValue s2 of
                       (Inr u, s3) \<Rightarrow> Some (Inr (), s3)
                     | (Inl e, s3) \<Rightarrow>
                         (case errorHandler E of
                            Some h \<Rightarrow> Some (h e (vm (watchers s3 w)) s3)
                          | None \<Rightarrow>
                              Some (Inl e,
                                if \<not> production E
                                then warn (watcher_error_msg (expression (watchers s3 w)))
                                          (vm (watchers s3 w)) s3
                                else s3)))
                  else Some (cb_call E (cb (watchers s2 w)) (vm (watchers s2 w)) val oldValue s2)
             else Some (Inr (), s1))
      else Some (Inr (), s))"

text \<open>\<^verbatim>\<open>update\<close>, lines 150 to 159.\<close>

definition update :: "env \<Rightarrow> nat \<Rightarrow> wref \<Rightarrow> world \<Rightarrow> unit completion option" where
  "update E n w s =
     (if lazy (watchers s w) then Some (Inr (), upd_watcher w (\<lambda>x. x\<lparr>dirty := True\<rparr>) s)
      else if sync (watchers s w) then run E n w s
      else Some (Inr (), queueWatcher w s))"

text \<open>\<^verbatim>\<open>evaluate\<close>, lines 211 to 214.\<close>

definition evaluate :: "env \<Rightarrow> nat \<Rightarrow> wref \<Rightarrow> world \<Rightarrow> unit completion option" where
  "evaluate E n w s =
     (case get E n w s of
        None \<Rightarrow> None
      | Some (Inl e, s1) \<Rightarrow> Some (Inl e, s1)
      | Some (Inr val, s1) \<Rightarrow>
          Some (Inr (), upd_watcher w (\<lambda>x. x\<lparr>dirty := False\<rparr>)
                          (upd_watcher w (\<lambda>x. x\<lparr>value_w := val\<rparr>) s1)))"

text \<open>\<^verbatim>\<open>depend\<close>, lines 219 to 224.\<close>

definition depend :: "wref \<Rightarrow> world \<Rightarrow> world" where
  "depend w s = fold dep_depend (rev (deps (watchers s w))) s"

text \<open>\<^verbatim>\<open>teardown\<close>, lines 229 to 243.\<close>

definition teardown :: "wref \<Rightarrow> world \<Rightarrow> world" where
  "teardown w s =
     (if active (watchers s w) then
        let v = vm (watchers s w);
            s1 = (if \<not> vm_isBeingDestroyed (vms s v)
                  then s\<lparr>vms := (vms s)(v := (vms s v)\<lparr>vm_watchers := remove (vm_watchers (vms s v)) w\<rparr>)\<rparr>
                  else s);
            s2 = fold (\<lambda>d. removeSub d w) (rev (deps (watchers s1 w))) s1
        in upd_watcher w (\<lambda>x. x\<lparr>active := False\<rparr>) s2
      else s)"

text \<open>
  Modelled from the spec: \<^verbatim>\<open>Dep.notify\<close> calls \<^verbatim>\<open>update()\<close> on every subscriber
  registered when it starts, in registry order; a throw ends it.
\<close>

fun notify_loop :: "env \<Rightarrow> nat \<Rightarrow> wref list \<Rightarrow> world \<Rightarrow> unit completion option" where
  "notify_loop E n [] s = Some (Inr (), s)"
| "notify_loop E n (w # ws) s =
     (case update E n w s of
        None \<Rightarrow> None
      | Some (Inl e, s1) \<Rightarrow> Some (Inl e, s1)
      | Some (Inr u, s1) \<Rightarrow> notify_loop E n ws s1)"

definition notify :: "env \<Rightarrow> nat \<Rightarrow> depref \<Rightarrow> world \<Rightarrow> unit completion option" where
  "notify E n d s = notify_loop E n (subs (depStore s d)) s"

section \<open>Construction\<close>

record options =
  opt_deep :: jsval
  opt_user :: jsval
  opt_lazy :: jsval
  opt_sync :: jsval

definition toString :: "env \<Rightarrow> expOrFn \<Rightarrow> string" where
  "toString E x = (case x of Fn f \<Rightarrow> fn_text E f | Path p \<Rightarrow> p)"

definition path_error_msg :: "string \<Rightarrow> string" where
  "path_error_msg p =
     ''Failed watching path: '' @ [CHR 0x22] @ p @ [CHR 0x22] @ '' '' @
     ''Watcher only accepts simple dot-delimited paths. '' @
     ''For full control, use a function instead.''"

text \<open>
  The constructor, lines 39 to 86, in two steps: lines 45 to 82 set the fields of the
  new object and register it with its component, lines 83 to 85 evaluate it unless it is
  lazy. The new object is referred to by the id it draws from the module counter
  \<^verbatim>\<open>uid\<close>. The result is the reference, or the value thrown by the first evaluation.
\<close>

definition Watcher_init :: "env \<Rightarrow> vmref \<Rightarrow> expOrFn \<Rightarrow> fnid \<Rightarrow> options option \<Rightarrow> world \<Rightarrow> world" where
  "Watcher_init E v x c opts s =
     (let w = Suc (uid s);
          s0 = s\<lparr>console := console s @ [x]\<rparr>;
          s1 = s0\<lparr>vms := (vms s0)(v := (vms s0 v)\<lparr>vm_watchers := vm_watchers (vms s0 v) @ [w]\<rparr>)\<rparr>;
          dp = (case opts of Some o' \<Rightarrow> truthy (opt_deep o') | None \<Rightarrow> False);
          us = (case opts of Some o' \<Rightarrow> truthy (opt_user o') | None \<Rightarrow> False);
          lz = (case opts of Some o' \<Rightarrow> truthy (opt_lazy o') | None \<Rightarrow> False);
          sy = (case opts of Some o' \<Rightarrow> truthy (opt_sync o') | None \<Rightarrow> False);
          s2 = s1\<lparr>uid := Suc (uid s1)\<rparr>;
          g = (case x of Fn f \<Rightarrow> GFn f
               | Path p \<Rightarrow> (case parsePath E p of Some f \<Rightarrow> GFn f | None \<Rightarrow> GNoop));
          this = \<lparr>vm = v, expression = (if \<not> production E then toString E x else []),
                  cb = c, id_w = uid s2, deep = dp, user = us, lazy = lz, sync = sy,
                  dirty = lz, active = True, deps = [], newDeps = [], depIds = {},
                  newDepIds = {}, getter = g, value_w = VUndefined\<rparr>;
          s3 = s2\<lparr>watchers := (watchers s2)(w := this)\<rparr>
      in case x of
           Fn f \<Rightarrow> s3
         | Path p \<Rightarrow> (case parsePath E p of
                        Some f \<Rightarrow> s3
                      | None \<Rightarrow> if \<not> production E then warn (path_error_msg p) v s3 else s3))"

definition Watcher_new ::
  "env \<Rightarrow> nat \<Rightarrow> vmref \<Rightarrow> expOrFn \<Rightarrow> fnid \<Rightarrow> options option \<Rightarrow> world \<Rightarrow> wref completion option" where
  "Watcher_new E n v x c opts s =
     (let w = Suc (uid s);
          s4 = Watcher_init E v x c opts s
      in if lazy (watchers s4 w) then Some (Inr w, s4)
         else (case get E n w s4 of
                 None \<Rightarrow> None
               | Some (Inl e, s5) \<Rightarrow> Some (Inl e, s5)
               | Some (Inr val, s5) \<Rightarrow> Some (Inr w, upd_watcher w (\<lambda>x. x\<lparr>value_w := val\<rparr>) s5)))"

section \<open>Invariants\<close>

text \<open>The ids of a sequence of publisher references.\<close>

definition dep_ids :: "world \<Rightarrow> depref list \<Rightarrow> nat list" where
  "dep_ids s ds = map (\<lambda>d. id_dep (depStore s d)) ds"

text \<open>
  The edge bookkeeping of a subscriber is consistent: in the staging pair and in the
  current pair, the id set holds the ids of the sequence, and no id occurs twice.
\<close>

definition edges_ok :: "wref \<Rightarrow> world \<Rightarrow> bool" where
  "edges_ok w s =
     (distinct (dep_ids s (newDeps (watchers s w))) \<and>
      set (dep_ids s (newDeps (watchers s w))) = newDepIds (watchers s w) \<and>
      distinct (dep_ids s (deps (watchers s w))) \<and>
      set (dep_ids s (deps (watchers s w))) = depIds (watchers s w))"

text \<open>Every function of the environment keeps a property of the world.\<close>

definition env_keeps :: "(world \<Rightarrow> bool) \<Rightarrow> env \<Rightarrow> bool" where
  "env_keeps P E =
     ((\<forall>f v s. P s \<longrightarrow> P (snd (fn_call E f v s))) \<and>
      (\<forall>c v new old s. P s \<longrightarrow> P (snd (cb_call E c v new old s))) \<and>
      (\<forall>h e v s. errorHandler E = Some h \<and> P s \<longrightarrow> P (snd (h e v s))))"

text \<open>The test of lines 264 to 269 and the world after lines 270 and 271.\<close>

definition already_seen :: "jsobj \<Rightarrow> world \<Rightarrow> bool" where
  "already_seen obj s =
     (case ob obj of None \<Rightarrow> False | Some d \<Rightarrow> id_dep (depStore s d) \<in> seenObjects s)"

definition enter :: "addr \<Rightarrow> jsobj \<Rightarrow> world \<Rightarrow> world" where
  "enter a obj s =
     (case ob obj of None \<Rightarrow> s
      | Some d \<Rightarrow> s\<lparr>seenObjects := insert (id_dep (depStore s d)) (seenObjects s)\<rparr>)
     \<lparr>walked := walked s @ [a]\<rparr>"

text \<open>The composite whose reads a call of \<^verbatim>\<open>_traverse\<close> goes on to make, if it makes
  any: the value is a reference to an extensible composite that the test of lines 264
  to 269 lets through.\<close>

definition walks :: "jsval \<Rightarrow> world \<Rightarrow> (addr \<times> jsobj) option" where
  "walks val s =
     (case val of
        VRef a \<Rightarrow>
          (case map_of (heap s) a of
             None \<Rightarrow> None
           | Some obj \<Rightarrow> if extensible obj \<and> \<not> already_seen obj s then Some (a, obj) else None)
      | _ \<Rightarrow> None)"

section \<open>Example programs and worlds\<close>

text \<open>
  Function 0 reads a flag (publisher 10) and, when the flag is set, a second cell twice
  (publisher 11); function 1 throws; every other function returns 7. Callback 0 stores
  its two arguments in a fresh array; every other callback throws.
\<close>

definition ex_flag :: "world \<Rightarrow> bool" where
  "ex_flag s = (case map_of (heap s) 0 of
                  Some obj \<Rightarrow> (case body obj of Arr (VBool b # rest) \<Rightarrow> b | _ \<Rightarrow> False)
                | None \<Rightarrow> False)"

definition ex_fn :: "fnid \<Rightarrow> vmref \<Rightarrow> world \<Rightarrow> jsval completion" where
  "ex_fn f v s =
     (if f = 0 then
        (let s1 = dep_depend 10 s in
         if ex_flag s1 then (Inr (VNum 1), dep_depend 11 (dep_depend 11 s1)) else (Inr (VNum 0), s1))
      else if f = 1 then (Inl (VStr ''boom''), s)
      else (Inr (VNum 7), s))"

definition ex_cb :: "fnid \<Rightarrow> vmref \<Rightarrow> jsval \<Rightarrow> jsval \<Rightarrow> world \<Rightarrow> unit completion" where
  "ex_cb c v new old s =
     (if c = 0
      then (Inr (), s\<lparr>heap := (100, \<lparr>extensible = True, ob = None, body = Arr [new, old]\<rparr>) # heap s\<rparr>)
      else (Inl (VStr ''callback failed''), s))"

definition ex_handler :: "jsval \<Rightarrow> vmref \<Rightarrow> world \<Rightarrow> unit completion" where
  "ex_handler e v s =
     (Inr (), s\<lparr>heap := (101, \<lparr>extensible = True, ob = None, body = Arr [e, VNum (int v)]\<rparr>) # heap s\<rparr>)"

definition ex_env :: env where
  "ex_env = \<lparr>fn_call = ex_fn, cb_call = ex_cb, fn_text = (\<lambda>f. ''fn''),
             parsePath = (\<lambda>p. None), errorHandler = None, production = False\<rparr>"

definition ex_watcher :: watcher where
  "ex_watcher = \<lparr>vm = 0, expression = ''fn'', cb = 0, id_w = 1, deep = False, user = False,
                 lazy = False, sync = False, dirty = False, active = True, deps = [],
                 newDeps = [], depIds = {}, newDepIds = {}, getter = GFn 0, value_w = VUndefined\<rparr>"

text \<open>
  Subscriber 1 evaluates function 0; subscriber 2 the throwing function; subscriber 3 is
  guarded with a throwing callback; subscriber 4 is lazy and sync; subscriber 5 is
  unguarded with a throwing callback; subscriber 6 is sync.
\<close>

definition ex_world :: world where
  "ex_world = \<lparr>watchers = (\<lambda>w. ex_watcher\<lparr>id_w := w\<rparr>)
                 (2 := ex_watcher\<lparr>id_w := 2, getter := GFn 1\<rparr>,
                  3 := ex_watcher\<lparr>id_w := 3, getter := GFn 2, cb := 1, user := True\<rparr>,
                  4 := ex_watcher\<lparr>id_w := 4, getter := GFn 2, lazy := True, sync := True\<rparr>,
                  5 := ex_watcher\<lparr>id_w := 5, getter := GFn 2, cb := 1\<rparr>,
                  6 := ex_watcher\<lparr>id_w := 6, getter := GFn 2, sync := True\<rparr>),
               depStore = (\<lambda>d. \<lparr>id_dep = d, subs = []\<rparr>),
               vms = (\<lambda>v. \<lparr>vm_watchers = [1, 2, 3, 4, 5, 6], vm_isBeingDestroyed = False\<rparr>),
               heap = [(0, \<lparr>extensible = True, ob = None, body = Arr [VBool True]\<rparr>)],
               targetStack = [], queue = [], warnings = [], console = [], uid = 6,
               seenObjects = {}, walked = []\<rparr>"

text \<open>
  Subscriber 1 at the end of a second evaluation that read publisher 10 only, after a
  first one that read publishers 10 and 11.
\<close>

definition ex_stale :: world where
  "ex_stale = ex_world\<lparr>
     watchers := (watchers ex_world)(1 := ex_watcher\<lparr>deps := [10, 11], depIds := {10, 11},
                                                       newDeps := [10], newDepIds := {10}\<rparr>),
     depStore := (depStore ex_world)(10 := \<lparr>id_dep = 10, subs = [1]\<rparr>, 11 := \<lparr>id_dep = 11, subs = [1]\<rparr>)\<rparr>"

definition ex_options :: options where
  "ex_options = \<lparr>opt_deep = VUndefined, opt_user = VUndefined, opt_lazy = VBool True, opt_sync = VNum 1\<rparr>"

text \<open>The example world after subscriber 1 has stored the value 1; a production build;
  a configuration with an error handler.\<close>

definition ex_settled :: world where
  "ex_settled = ex_world\<lparr>watchers := (watchers ex_world)(1 := ex_watcher\<lparr>value_w := VNum 1\<rparr>)\<rparr>"

definition ex_prod :: env where
  "ex_prod = ex_env\<lparr>production := True\<rparr>"

definition ex_handled :: env where
  "ex_handled = ex_env\<lparr>errorHandler := Some ex_handler\<rparr>"

section \<open>The object graph seen by the deep traversal\<close>

text \<open>
  The values a composite holds, read off its representation: the elements of an array,
  and the values of the properties of an object, where the association list stands for
  the object that has, for each key, the first value listed for it.
\<close>

fun children :: "jsbody \<Rightarrow> jsval set" where
  "children (Arr xs) = set xs"
| "children (Obj kvs) = fst ` ran (map_of kvs)"

text \<open>The values reachable from \<open>val\<close>: \<open>val\<close> itself, and every value held by an
  extensible composite that is reachable.\<close>

inductive reach :: "world \<Rightarrow> jsval \<Rightarrow> jsval \<Rightarrow> bool" for s :: world and val :: jsval where
  start: "reach s val val"
| step: "reach s val (VRef a) \<Longrightarrow> map_of (heap s) a = Some obj \<Longrightarrow> extensible obj \<Longrightarrow>
         v \<in> children (body obj) \<Longrightarrow> reach s val v"

text \<open>
  A composite the walk can enter is an extensible composite of the heap. A plain
  composite is one without the marker \<^verbatim>\<open>__ob__\<close>: the walk goes through it every time
  it meets it. A rank function that decreases from every plain composite reachable from
  \<open>val\<close> to every plain composite it holds exists exactly when no cycle reachable from
  \<open>val\<close> runs through plain composites only, that is, when every cycle the walk can
  follow passes through a composite that carries the marker. Composites that are not
  reachable from \<open>val\<close> are not constrained.
\<close>

definition walkable :: "world \<Rightarrow> addr \<Rightarrow> bool" where
  "walkable s a = (case map_of (heap s) a of None \<Rightarrow> False | Some obj \<Rightarrow> extensible obj)"

definition plain :: "world \<Rightarrow> addr \<Rightarrow> bool" where
  "plain s a = (case map_of (heap s) a of None \<Rightarrow> False
                | Some obj \<Rightarrow> extensible obj \<and> ob obj = None)"

definition ranked :: "(addr \<Rightarrow> nat) \<Rightarrow> world \<Rightarrow> jsval \<Rightarrow> bool" where
  "ranked rk s val =
     (\<forall>a obj c. reach s val (VRef a) \<and> map_of (heap s) a = Some obj \<and> extensible obj \<and>
                ob obj = None \<and> VRef c \<in> children (body obj) \<and> plain s c \<longrightarrow> rk c < rk a)"

definition vrank :: "(addr \<Rightarrow> nat) \<Rightarrow> world \<Rightarrow> jsval \<Rightarrow> nat" where
  "vrank rk s v = (case v of VRef c \<Rightarrow> if plain s c then Suc (rk c) else 0 | _ \<Rightarrow> 0)"

text \<open>The publisher id behind the marker of a composite, the ids of a list of
  composites, and the composites that carry a marker.\<close>

definition marker_of :: "world \<Rightarrow> addr \<Rightarrow> nat option" where
  "marker_of s a =
     (case map_of (heap s) a of None \<Rightarrow> None
      | Some obj \<Rightarrow> map_option (\<lambda>d. id_dep (depStore s d)) (ob obj))"

definition marker_ids :: "world \<Rightarrow> addr list \<Rightarrow> nat set" where
  "marker_ids s as = set (List.map_filter (marker_of s) as)"

definition marked :: "world \<Rightarrow> addr \<Rightarrow> bool" where
  "marked s a = (marker_of s a \<noteq> None)"

text \<open>
  The test of line 267 knows a marked composite by the publisher id of its marker, and
  \<^verbatim>\<open>val.__ob__\<close> is an ordinary property read: nothing in the walk keeps two composites
  from carrying markers with the same publisher id. The marked composites the walk can
  enter from \<open>val\<close> have unique markers when no two of them share a publisher id.
\<close>

definition unique_markers :: "world \<Rightarrow> jsval \<Rightarrow> bool" where
  "unique_markers s val =
     (\<forall>a a'. reach s val (VRef a) \<and> walkable s a \<and> marked s a \<and>
              reach s val (VRef a') \<and> walkable s a' \<and> marker_of s a' = marker_of s a \<longrightarrow>
              a' = a)"

text \<open>
  A value is covered by the list \<open>new\<close> of walked composites when the walk has nothing
  left to do for it: it is not a composite the walk can enter, or it is in the list, or
  it is marked and a composite of the list has its publisher id.
\<close>

definition covered :: "world \<Rightarrow> addr list \<Rightarrow> jsval \<Rightarrow> bool" where
  "covered s new v =
     (\<forall>c. v = VRef c \<and> walkable s c \<longrightarrow>
          c \<in> set new \<or> (marked s c \<and> (\<exists>a \<in> set new. marker_of s a = marker_of s c)))"

text \<open>Bookkeeping for the proofs: the marker ids of the heap that are not in the seen
  set; worlds with the same heap and publisher ids; a world that a walk may leave behind
  another; the state of the log and the seen set from position \<open>b\<close> of the log on.\<close>

definition heap_ids :: "world \<Rightarrow> nat set" where
  "heap_ids s =
     (\<Union>(a, obj) \<in> set (heap s). case ob obj of None \<Rightarrow> {} | Some d \<Rightarrow> {id_dep (depStore s d)})"

definition unseen :: "world \<Rightarrow> nat" where
  "unseen s = card (heap_ids s - seenObjects s)"

definition same_graph :: "world \<Rightarrow> world \<Rightarrow> bool" where
  "same_graph s t = (heap t = heap s \<and> (\<forall>d. id_dep (depStore t d) = id_dep (depStore s d)))"

definition grows :: "world \<Rightarrow> world \<Rightarrow> bool" where
  "grows s t = (same_graph s t \<and> seenObjects s \<subseteq> seenObjects t \<and>
                (\<exists>new. walked t = walked s @ new))"

definition once_inv :: "nat \<Rightarrow> world \<Rightarrow> bool" where
  "once_inv b s =
     (b \<le> length (walked s) \<and>
      distinct (map (marker_of s) (filter (marked s) (drop b (walked s)))) \<and>
      seenObjects s = marker_ids s (drop b (walked s)))"

definition handled :: "nat \<Rightarrow> world \<Rightarrow> jsval \<Rightarrow> bool" where
  "handled b s v = (case walks v s of None \<Rightarrow> True | Some (c, cobj) \<Rightarrow> c \<in> set (drop b (walked s)))"

definition children_handled :: "nat \<Rightarrow> world \<Rightarrow> addr \<Rightarrow> bool" where
  "children_handled b s a =
     (case map_of (heap s) a of None \<Rightarrow> True
      | Some obj \<Rightarrow> (\<forall>(v, ds) \<in> set (reads (body obj)). handled b s v))"

text \<open>The publishers behind the properties of a list of composites: a walk that goes
  through these composites reads every property of each, and each read calls
  \<^verbatim>\<open>depend()\<close> on the publishers of the property.\<close>

definition prop_deps :: "world \<Rightarrow> addr list \<Rightarrow> depref set" where
  "prop_deps s as =
     (\<Union>a \<in> set as. case map_of (heap s) a of None \<Rightarrow> {}
                      | Some obj \<Rightarrow> (case body obj of Arr xs \<Rightarrow> {}
                                      | Obj kvs \<Rightarrow> (\<Union>(v, ds) \<in> ran (map_of kvs). set ds)))"

text \<open>
  An example graph: composite 1 is instrumented and refers to itself and to the plain
  array 2, which refers back to 1, to a number, to the frozen instrumented array 3 and
  to the empty plain array 4. The plain array 9 holds itself and is not reachable from
  the others. Subscriber 1 is evaluating, and the seen set still holds ids of an earlier
  traversal. Subscribers 7 and 8 are deep.
\<close>

definition ex_graph :: world where
  "ex_graph = ex_world\<lparr>
     heap := [(1, \<lparr>extensible = True, ob = Some 20,
                   body = Obj [(''self'', VRef 1, [21]), (''child'', VRef 2, [22])]\<rparr>),
              (2, \<lparr>extensible = True, ob = None, body = Arr [VRef 1, VNum 5, VRef 3, VRef 4]\<rparr>),
              (3, \<lparr>extensible = False, ob = Some 23, body = Arr [VRef 3]\<rparr>),
              (4, \<lparr>extensible = True, ob = None, body = Arr []\<rparr>),
              (9, \<lparr>extensible = True, ob = None, body = Arr [VRef 9]\<rparr>)],
     watchers := (watchers ex_world)
       (7 := ex_watcher\<lparr>id_w := 7, deep := True, getter := GFn 4\<rparr>,
        8 := ex_watcher\<lparr>id_w := 8, deep := True, getter := GFn 5\<rparr>),
     targetStack := [1], seenObjects := {20, 23}\<rparr>"

definition ex_rk :: "addr \<Rightarrow> nat" where
  "ex_rk a = (if a = 2 then 1 else 0)"

text \<open>
  A second graph: the plain array 5 holds the composites 6 and 7, which carry markers of
  the same publisher 30; composite 6 holds the plain array 8.
\<close>

definition ex_shared :: world where
  "ex_shared = ex_world\<lparr>
     heap := [(5, \<lparr>extensible = True, ob = None, body = Arr [VRef 6, VRef 7]\<rparr>),
              (6, \<lparr>extensible = True, ob = Some 30, body = Arr [VRef 8]\<rparr>),
              (7, \<lparr>extensible = True, ob = Some 30, body = Arr []\<rparr>),
              (8, \<lparr>extensible = True, ob = None, body = Arr []\<rparr>)]\<rparr>"

section \<open>Further example programs\<close>

text \<open>
  Function 3 reads the flag (publisher 10) and, when the flag is set, the second cell
  (publisher 11); it then throws when a second flag is set, and returns 1 or 0 with the
  first flag otherwise. Function 4 returns a reference to composite 9 and function 5 a
  reference to composite 1. The other functions are as before.
\<close>

definition ex_boom :: "world \<Rightarrow> bool" where
  "ex_boom s = (case map_of (heap s) 0 of
                  Some obj \<Rightarrow> (case body obj of Arr (x # VBool b # rest) \<Rightarrow> b | _ \<Rightarrow> False)
                | None \<Rightarrow> False)"

definition ex_fn2 :: "fnid \<Rightarrow> vmref \<Rightarrow> world \<Rightarrow> jsval completion" where
  "ex_fn2 f v s =
     (if f = 3 then
        (let s1 = dep_depend 10 s;
             s2 = (if ex_flag s1 then dep_depend 11 s1 else s1)
         in if ex_boom s2 then (Inl (VStr ''boom''), s2)
            else (Inr (VNum (if ex_flag s2 then 1 else 0)), s2))
      else if f = 4 then (Inr (VRef 9), s)
      else if f = 5 then (Inr (VRef 1), s)
      else ex_fn f v s)"

definition ex_env2 :: env where
  "ex_env2 = ex_env\<lparr>fn_call := ex_fn2\<rparr>"

text \<open>
  Subscriber 9 evaluates function 3. It is evaluated three times: with the first flag
  set; with both flags set, so that the getter throws after its reads; and with no flag
  set.
\<close>

definition ex_flags :: "bool \<Rightarrow> bool \<Rightarrow> (addr \<times> jsobj) list" where
  "ex_flags a b = [(0, \<lparr>extensible = True, ob = None, body = Arr [VBool a, VBool b]\<rparr>)]"

definition ex_branch :: world where
  "ex_branch = ex_world\<lparr>
     watchers := (watchers ex_world)(9 := ex_watcher\<lparr>id_w := 9, getter := GFn 3\<rparr>),
     heap := ex_flags True False\<rparr>"

definition ex_after1 :: world where
  "ex_after1 = snd (the (get ex_env2 0 9 ex_branch))"

definition ex_after2 :: world where
  "ex_after2 = snd (the (get ex_env2 0 9 (ex_after1\<lparr>heap := ex_flags True True\<rparr>)))"

definition ex_after3 :: world where
  "ex_after3 = snd (the (get ex_env2 0 9 (ex_after2\<lparr>heap := ex_flags False False\<rparr>)))"

text \<open>
  Subscribers 7 and 8 of the example graph evaluate functions 4 and 5. In the world
  below, subscriber 8 has been evaluated before and then read publishers 22 and 25.
\<close>

definition ex_deep :: world where
  "ex_deep = ex_graph\<lparr>
     watchers := (watchers ex_graph)(8 := ex_watcher\<lparr>id_w := 8, deep := True, getter := GFn 5,
                                                       deps := [22, 25], depIds := {22, 25}\<rparr>),
     depStore := (depStore ex_graph)(22 := \<lparr>id_dep = 22, subs = [8]\<rparr>, 25 := \<lparr>id_dep = 25, subs = [8]\<rparr>),
     targetStack := []\<rparr>"

section \<open>Basic facts\<close>

lemma upd_watcher_simps [simp]:
  "watchers (upd_watcher w f s) = (watchers s)(w := f (watchers s w))"
  "depStore (upd_watcher w f s) = depStore s"
  "vms (upd_watcher w f s) = vms s"
  "heap (upd_watcher w f s) = heap s"
  "targetStack (upd_watcher w f s) = targetStack s"
  "queue (upd_watcher w f s) = queue s"
  "warnings (upd_watcher w f s) = warnings s"
  "console (upd_watcher w f s) = console s"
  "uid (upd_watcher w f s) = uid s"
  "seenObjects (upd_watcher w f s) = seenObjects s"
  "walked (upd_watcher w f s) = walked s"
  by (simp_all add: upd_watcher_def)

lemma upd_dep_simps [simp]:
  "watchers (upd_dep d f s) = watchers s"
  "depStore (upd_dep d f s) = (depStore s)(d := f (depStore s d))"
  "vms (upd_dep d f s) = vms s"
  "heap (upd_dep d f s) = heap s"
  "targetStack (upd_dep d f s) = targetStack s"
  "queue (upd_dep d f s) = queue s"
  "warnings (upd_dep d f s) = warnings s"
  "console (upd_dep d f s) = console s"
  "uid (upd_dep d f s) = uid s"
  "seenObjects (upd_dep d f s) = seenObjects s"
  "walked (upd_dep d f s) = walked s"
  by (simp_all add: upd_dep_def)

lemma addSub_simps [simp]:
  "watchers (addSub d w s) = watchers s"
  "depStore (addSub d w s) = (depStore s)(d := (depStore s d)\<lparr>subs := subs (depStore s d) @ [w]\<rparr>)"
  "vms (addSub d w s) = vms s"
  "heap (addSub d w s) = heap s"
  "targetStack (addSub d w s) = targetStack s"
  "queue (addSub d w s) = queue s"
  "warnings (addSub d w s) = warnings s"
  "console (addSub d w s) = console s"
  "uid (addSub d w s) = uid s"
  "seenObjects (addSub d w s) = seenObjects s"
  "walked (addSub d w s) = walked s"
  by (simp_all add: addSub_def)

lemma removeSub_simps [simp]:
  "watchers (removeSub d w s) = watchers s"
  "depStore (removeSub d w s) = (depStore s)(d := (depStore s d)\<lparr>subs := remove1 w (subs (depStore s d))\<rparr>)"
  "vms (removeSub d w s) = vms s"
  "heap (removeSub d w s) = heap s"
  "targetStack (removeSub d w s) = targetStack s"
  "queue (removeSub d w s) = queue s"
  "warnings (removeSub d w s) = warnings s"
  "console (removeSub d w s) = console s"
  "uid (removeSub d w s) = uid s"
  "seenObjects (removeSub d w s) = seenObjects s"
  "walked (removeSub d w s) = walked s"
  by (simp_all add: removeSub_def)

lemma addDep_seen: "id_dep (depStore s d) \<in> newDepIds (watchers s w) \<Longrightarrow> addDep w d s = s"
  by (simp add: addDep_def)

lemma addDep_watcher:
  "id_dep (depStore s d) \<notin> newDepIds (watchers s w) \<Longrightarrow>
   watchers (addDep w d s) =
     (watchers s)(w := (watchers s w)\<lparr>newDepIds := insert (id_dep (depStore s d)) (newDepIds (watchers s w)),
                                      newDeps := newDeps (watchers s w) @ [d]\<rparr>)"
  by (auto simp add: addDep_def Let_def fun_eq_iff)

lemma addDep_depStore:
  "depStore (addDep w d s) =
     (if id_dep (depStore s d) \<notin> newDepIds (watchers s w) \<and> id_dep (depStore s d) \<notin> depIds (watchers s w)
      then (depStore s)(d := (depStore s d)\<lparr>subs := subs (depStore s d) @ [w]\<rparr>)
      else depStore s)"
  by (simp add: addDep_def Let_def)

lemma addDep_id [simp]: "id_dep (depStore (addDep w d s) d') = id_dep (depStore s d')"
  by (simp add: addDep_depStore)

lemma addDep_other [simp]:
  "heap (addDep w d s) = heap s"
  "targetStack (addDep w d s) = targetStack s"
  "queue (addDep w d s) = queue s"
  "vms (addDep w d s) = vms s"
  "warnings (addDep w d s) = warnings s"
  "console (addDep w d s) = console s"
  "uid (addDep w d s) = uid s"
  "seenObjects (addDep w d s) = seenObjects s"
  "walked (addDep w d s) = walked s"
  by (simp_all add: addDep_def Let_def)

lemma dep_ids_addDep [simp]: "dep_ids (addDep w d s) ds = dep_ids s ds"
  by (simp add: dep_ids_def)

lemma addDep_idem: "addDep w d (addDep w d s) = addDep w d s"
proof (cases "id_dep (depStore s d) \<in> newDepIds (watchers s w)")
  case True
  then show ?thesis by (simp add: addDep_seen)
next
  case False
  then have "id_dep (depStore (addDep w d s) d) \<in> newDepIds (watchers (addDep w d s) w)"
    by (simp add: addDep_watcher)
  then show ?thesis by (rule addDep_seen)
qed

lemma addDep_edges_ok: "edges_ok w' s \<Longrightarrow> edges_ok w' (addDep w d s)"
proof (cases "id_dep (depStore s d) \<in> newDepIds (watchers s w)")
  case True
  assume "edges_ok w' s"
  with True show ?thesis by (simp add: addDep_seen)
next
  case False
  assume ok: "edges_ok w' s"
  show ?thesis
  proof (cases "w' = w")
    case True
    with ok False show ?thesis
      by (auto simp add: edges_ok_def addDep_watcher dep_ids_def)
  next
    case False
    with ok \<open>id_dep (depStore s d) \<notin> newDepIds (watchers s w)\<close> show ?thesis
      by (auto simp add: edges_ok_def addDep_watcher dep_ids_def)
  qed
qed

lemma cleanup_step_simps [simp]:
  "watchers (cleanup_step w d s) = watchers s"
  "heap (cleanup_step w d s) = heap s"
  "targetStack (cleanup_step w d s) = targetStack s"
  "queue (cleanup_step w d s) = queue s"
  "vms (cleanup_step w d s) = vms s"
  "warnings (cleanup_step w d s) = warnings s"
  "console (cleanup_step w d s) = console s"
  "uid (cleanup_step w d s) = uid s"
  "seenObjects (cleanup_step w d s) = seenObjects s"
  "walked (cleanup_step w d s) = walked s"
  "id_dep (depStore (cleanup_step w d s) d') = id_dep (depStore s d')"
  by (simp_all add: cleanup_step_def)

lemma fold_cleanup_simps [simp]:
  "watchers (fold (cleanup_step w) ds s) = watchers s"
  "heap (fold (cleanup_step w) ds s) = heap s"
  "targetStack (fold (cleanup_step w) ds s) = targetStack s"
  "queue (fold (cleanup_step w) ds s) = queue s"
  "vms (fold (cleanup_step w) ds s) = vms s"
  "warnings (fold (cleanup_step w) ds s) = warnings s"
  "console (fold (cleanup_step w) ds s) = console s"
  "uid (fold (cleanup_step w) ds s) = uid s"
  "seenObjects (fold (cleanup_step w) ds s) = seenObjects s"
  "walked (fold (cleanup_step w) ds s) = walked s"
  "id_dep (depStore (fold (cleanup_step w) ds s) d') = id_dep (depStore s d')"
  by (induction ds arbitrary: s; simp)+

lemma fold_cleanup_subs:
  "subs (depStore (fold (cleanup_step w) ds s) d) =
     (remove1 w ^^ (if id_dep (depStore s d) \<notin> newDepIds (watchers s w) then count_list ds d else 0))
       (subs (depStore s d))"
proof (induction ds arbitrary: s)
  case Nil
  show ?case by simp
next
  case (Cons x xs)
  show ?case
    by (simp add: Cons.IH) (simp add: cleanup_step_def funpow_swap1)
qed

lemma cleanupDeps_watchers:
  "watchers (cleanupDeps w s) =
     (watchers s)(w := (watchers s w)\<lparr>depIds := newDepIds (watchers s w), newDepIds := {},
                                      deps := newDeps (watchers s w), newDeps := []\<rparr>)"
  by (simp add: cleanupDeps_def Let_def fun_eq_iff)

lemma cleanupDeps_subs:
  "subs (depStore (cleanupDeps w s) d) =
     (if d \<in> set (deps (watchers s w)) \<and> id_dep (depStore s d) \<notin> newDepIds (watchers s w)
      then (remove1 w ^^ count_list (deps (watchers s w)) d) (subs (depStore s d))
      else subs (depStore s d))"
  by (simp add: cleanupDeps_def Let_def fold_cleanup_subs)

lemma cleanupDeps_simps [simp]:
  "heap (cleanupDeps w s) = heap s"
  "targetStack (cleanupDeps w s) = targetStack s"
  "queue (cleanupDeps w s) = queue s"
  "vms (cleanupDeps w s) = vms s"
  "warnings (cleanupDeps w s) = warnings s"
  "console (cleanupDeps w s) = console s"
  "uid (cleanupDeps w s) = uid s"
  "seenObjects (cleanupDeps w s) = seenObjects s"
  "walked (cleanupDeps w s) = walked s"
  "id_dep (depStore (cleanupDeps w s) d') = id_dep (depStore s d')"
  by (simp_all add: cleanupDeps_def Let_def)

lemma count_remove1_self: "count_list (remove1 w xs) w = count_list xs w - 1"
  by (induction xs) auto

lemma count_funpow_remove1: "count_list ((remove1 w ^^ k) xs) w = count_list xs w - k"
  by (induction k) (simp_all add: count_remove1_self)

lemma funpow_remove1_notin:
  "count_list xs w \<le> 1 \<Longrightarrow> 0 < k \<Longrightarrow> w \<notin> set ((remove1 w ^^ k) xs)"
  by (simp add: count_list_0_iff [symmetric] count_funpow_remove1)

lemma funpow_remove1_absent: "w \<notin> set ys \<Longrightarrow> (remove1 w ^^ k) ys = ys"
  by (induction k) (simp_all add: remove1_idem)

lemma remove1_removeAll_once: "count_list xs w \<le> 1 \<Longrightarrow> remove1 w xs = removeAll w xs"
  by (induction xs) (auto simp add: count_list_0_iff)

lemma funpow_remove1_removeAll:
  "count_list xs w \<le> 1 \<Longrightarrow> 0 < k \<Longrightarrow> (remove1 w ^^ k) xs = removeAll w xs"
proof -
  assume c: "count_list xs w \<le> 1" and k: "0 < k"
  from k obtain j where j: "k = Suc j" by (cases k) auto
  have "(remove1 w ^^ k) xs = (remove1 w ^^ j) (remove1 w xs)"
    unfolding j by (simp add: funpow_swap1)
  also from c have "\<dots> = (remove1 w ^^ j) (removeAll w xs)"
    by (simp add: remove1_removeAll_once)
  also have "\<dots> = removeAll w xs"
    by (rule funpow_remove1_absent) simp
  finally show ?thesis .
qed

lemma cleanupDeps_dropped:
  "d \<in> set (deps (watchers s w)) \<Longrightarrow> id_dep (depStore s d) \<notin> newDepIds (watchers s w) \<Longrightarrow>
   count_list (subs (depStore s d)) w \<le> 1 \<Longrightarrow>
   w \<notin> set (subs (depStore (cleanupDeps w s) d))"
proof -
  assume a: "d \<in> set (deps (watchers s w))"
    and b: "id_dep (depStore s d) \<notin> newDepIds (watchers s w)"
    and c: "count_list (subs (depStore s d)) w \<le> 1"
  from a have "0 < count_list (deps (watchers s w)) d"
    using count_list_0_iff [of "deps (watchers s w)" d] by simp
  with c have "w \<notin> set ((remove1 w ^^ count_list (deps (watchers s w)) d) (subs (depStore s d)))"
    by (rule funpow_remove1_notin)
  with a b show ?thesis by (simp add: cleanupDeps_subs)
qed

lemma dep_ids_cleanupDeps [simp]: "dep_ids (cleanupDeps w s) ds = dep_ids s ds"
  by (simp add: dep_ids_def)

lemma cleanupDeps_edges_ok: "edges_ok w' s \<Longrightarrow> edges_ok w' (cleanupDeps w s)"
  by (auto simp add: edges_ok_def cleanupDeps_watchers dep_ids_def)

lemma pushTarget_simps [simp]:
  "watchers (pushTarget w s) = watchers s"
  "depStore (pushTarget w s) = depStore s"
  "vms (pushTarget w s) = vms s"
  "heap (pushTarget w s) = heap s"
  "targetStack (pushTarget w s) = w # targetStack s"
  "queue (pushTarget w s) = queue s"
  "warnings (pushTarget w s) = warnings s"
  "seenObjects (pushTarget w s) = seenObjects s"
  "walked (pushTarget w s) = walked s"
  by (simp_all add: pushTarget_def)

lemma popTarget_simps [simp]:
  "watchers (popTarget s) = watchers s"
  "depStore (popTarget s) = depStore s"
  "vms (popTarget s) = vms s"
  "heap (popTarget s) = heap s"
  "targetStack (popTarget s) = (case targetStack s of [] \<Rightarrow> [] | t # rest \<Rightarrow> rest)"
  "queue (popTarget s) = queue s"
  "warnings (popTarget s) = warnings s"
  "seenObjects (popTarget s) = seenObjects s"
  "walked (popTarget s) = walked s"
  by (simp_all add: popTarget_def)

lemma dep_depend_simps [simp]:
  "heap (dep_depend d s) = heap s"
  "targetStack (dep_depend d s) = targetStack s"
  "queue (dep_depend d s) = queue s"
  "vms (dep_depend d s) = vms s"
  "warnings (dep_depend d s) = warnings s"
  "seenObjects (dep_depend d s) = seenObjects s"
  "walked (dep_depend d s) = walked s"
  "id_dep (depStore (dep_depend d s) d') = id_dep (depStore s d')"
  by (simp_all add: dep_depend_def split: option.split)

lemma touch_simps [simp]:
  "heap (touch ds s) = heap s"
  "targetStack (touch ds s) = targetStack s"
  "queue (touch ds s) = queue s"
  "vms (touch ds s) = vms s"
  "warnings (touch ds s) = warnings s"
  "seenObjects (touch ds s) = seenObjects s"
  "walked (touch ds s) = walked s"
  "id_dep (depStore (touch ds s) d') = id_dep (depStore s d')"
  unfolding touch_def by (induction ds arbitrary: s; simp)+

lemma traverse_loop_pres:
  assumes step: "\<And>v t t'. f v t = Some t' \<Longrightarrow> Q t \<Longrightarrow> Q t'"
    and tch: "\<And>ds t. Q t \<Longrightarrow> Q (touch ds t)"
  shows "traverse_loop f rs s = Some s' \<Longrightarrow> Q s \<Longrightarrow> Q s'"
proof (induction rs arbitrary: s)
  case Nil
  then show ?case by simp
next
  case (Cons r rs)
  obtain v ds where r: "r = (v, ds)" by (cases r)
  from Cons.prems(1) r obtain t where t: "f v (touch ds s) = Some t"
    and rest: "traverse_loop f rs t = Some s'"
    by (auto split: option.splits)
  from Cons.prems(2) have "Q (touch ds s)" by (rule tch)
  with t have "Q t" by (rule step)
  with rest show ?case by (rule Cons.IH)
qed

lemma walks_Some:
  "walks val s = Some (a, obj) \<longleftrightarrow>
   val = VRef a \<and> map_of (heap s) a = Some obj \<and> extensible obj \<and> \<not> already_seen obj s"
  by (cases val) (auto simp add: walks_def split: option.splits)

lemma traverse_inner_unfold:
  "traverse_inner (Suc n) val s =
     (case walks val s of
        None \<Rightarrow> Some s
      | Some (a, obj) \<Rightarrow> traverse_loop (traverse_inner n) (reads (body obj)) (enter a obj s))"
proof (cases val)
  case (VRef a)
  show ?thesis
  proof (cases "map_of (heap s) a")
    case None
    with VRef show ?thesis by (simp add: walks_def)
  next
    case (Some obj)
    with VRef show ?thesis
      by (cases "ob obj") (simp_all add: walks_def already_seen_def enter_def)
  qed
qed (simp_all add: walks_def)

lemma traverse_inner_pres:
  assumes tch: "\<And>ds t. Q t \<Longrightarrow> Q (touch ds t)"
    and ent: "\<And>v a obj t. Q t \<Longrightarrow> walks v t = Some (a, obj) \<Longrightarrow> Q (enter a obj t)"
  shows "traverse_inner n val s = Some s' \<Longrightarrow> Q s \<Longrightarrow> Q s'"
proof (induction n arbitrary: val s s')
  case 0
  then show ?case by simp
next
  case (Suc n)
  show ?case
  proof (cases "walks val s")
    case None
    with Suc.prems show ?thesis by (simp add: traverse_inner_unfold del: traverse_inner.simps)
  next
    case (Some p)
    obtain a obj where p: "p = (a, obj)" by (cases p)
    from Suc.prems(1) Some p
    have loop: "traverse_loop (traverse_inner n) (reads (body obj)) (enter a obj s) = Some s'"
      by (simp add: traverse_inner_unfold del: traverse_inner.simps)
    from Suc.prems(2) Some p have "Q (enter a obj s)" by (simp add: ent)
    with loop show ?thesis
      by (rule traverse_loop_pres [rotated 2]) (erule (1) Suc.IH, erule tch)
  qed
qed

lemma enter_simps [simp]:
  "heap (enter a obj s) = heap s"
  "targetStack (enter a obj s) = targetStack s"
  "depStore (enter a obj s) = depStore s"
  "watchers (enter a obj s) = watchers s"
  "walked (enter a obj s) = walked s @ [a]"
  "seenObjects (enter a obj s) =
     (case ob obj of None \<Rightarrow> seenObjects s | Some d \<Rightarrow> insert (id_dep (depStore s d)) (seenObjects s))"
  by (simp_all add: enter_def split: option.split)

lemma traverse_inner_stack:
  "traverse_inner n val s = Some s' \<Longrightarrow> targetStack s' = targetStack s"
  by (erule traverse_inner_pres [where Q = "\<lambda>t. targetStack t = targetStack s", rotated 2]) simp_all

lemma traverse_stack: "traverse n val s = Some s' \<Longrightarrow> targetStack s' = targetStack s"
  by (auto simp add: traverse_def dest: traverse_inner_stack)

lemma get_throw:
  "call_getter E (getter (watchers s w)) (vm (watchers s w)) (pushTarget w s) = (Inl e, s2) \<Longrightarrow>
   get E n w s = Some (Inl e, s2)"
  by (simp add: get_def)

lemma get_return_stack:
  "call_getter E (getter (watchers s w)) (vm (watchers s w)) (pushTarget w s) = (Inr val, s2) \<Longrightarrow>
   targetStack s2 = w # targetStack s \<Longrightarrow> get E n w s = Some res \<Longrightarrow>
   fst res = Inr val \<and> targetStack (snd res) = targetStack s"
  by (auto simp add: get_def split: option.splits if_splits dest: traverse_stack)

lemma get_return_shallow:
  "call_getter E (getter (watchers s w)) (vm (watchers s w)) (pushTarget w s) = (Inr val, s2) \<Longrightarrow>
   \<not> deep (watchers s2 w) \<Longrightarrow> get E n w s = Some (Inr val, cleanupDeps w (popTarget s2))"
  by (simp add: get_def)


lemma queueWatcher_simps [simp]:
  "watchers (queueWatcher w s) = watchers s"
  "depStore (queueWatcher w s) = depStore s"
  "vms (queueWatcher w s) = vms s"
  "heap (queueWatcher w s) = heap s"
  "targetStack (queueWatcher w s) = targetStack s"
  "queue (queueWatcher w s) = (if w \<in> set (queue s) then queue s else queue s @ [w])"
  "warnings (queueWatcher w s) = warnings s"
  by (simp_all add: queueWatcher_def)

lemma warn_simps [simp]:
  "watchers (warn m v s) = watchers s"
  "depStore (warn m v s) = depStore s"
  "vms (warn m v s) = vms s"
  "heap (warn m v s) = heap s"
  "targetStack (warn m v s) = targetStack s"
  "queue (warn m v s) = queue s"
  "warnings (warn m v s) = warnings s @ [(m, v)]"
  by (simp_all add: warn_def)

lemma call_getter_cb_indep:
  "call_getter (E\<lparr>cb_call := c, errorHandler := h\<rparr>) g v s = call_getter E g v s"
  by (cases g) (simp_all add: call_getter_def)

lemma get_cb_indep: "get (E\<lparr>cb_call := c, errorHandler := h\<rparr>) n w s = get E n w s"
  by (simp add: get_def call_getter_cb_indep)

lemma run_inactive: "\<not> active (watchers s w) \<Longrightarrow> run E n w s = Some (Inr (), s)"
  by (simp add: run_def)

lemma run_get_throws:
  "active (watchers s w) \<Longrightarrow> get E n w s = Some (Inl e, s1) \<Longrightarrow> run E n w s = Some (Inl e, s1)"
  by (simp add: run_def)

lemma run_quiet:
  "active (watchers s w) \<Longrightarrow> get E n w s = Some (Inr val, s1) \<Longrightarrow>
   \<not> (strict_neq val (value_w (watchers s1 w)) \<or> isObject val \<or> deep (watchers s1 w)) \<Longrightarrow>
   run (E\<lparr>cb_call := c, errorHandler := h\<rparr>) n w s = Some (Inr (), s1)"
  by (simp add: run_def get_cb_indep)

lemma run_fires_ok:
  "active (watchers s w) \<Longrightarrow> get E n w s = Some (Inr val, s1) \<Longrightarrow>
   strict_neq val (value_w (watchers s1 w)) \<or> isObject val \<or> deep (watchers s1 w) \<Longrightarrow>
   cb_call E (cb (watchers s1 w)) (vm (watchers s1 w)) val (value_w (watchers s1 w))
     (upd_watcher w (\<lambda>x. x\<lparr>value_w := val\<rparr>) s1) = (Inr u, s3) \<Longrightarrow>
   run E n w s = Some (Inr (), s3)"
  by (simp add: run_def Let_def)

lemma run_fires_throw_unguarded:
  "active (watchers s w) \<Longrightarrow> get E n w s = Some (Inr val, s1) \<Longrightarrow>
   strict_neq val (value_w (watchers s1 w)) \<or> isObject val \<or> deep (watchers s1 w) \<Longrightarrow>
   cb_call E (cb (watchers s1 w)) (vm (watchers s1 w)) val (value_w (watchers s1 w))
     (upd_watcher w (\<lambda>x. x\<lparr>value_w := val\<rparr>) s1) = (Inl e, s3) \<Longrightarrow>
   \<not> user (watchers s1 w) \<Longrightarrow>
   run E n w s = Some (Inl e, s3)"
  by (simp add: run_def Let_def)

lemma run_fires_throw_handler:
  "active (watchers s w) \<Longrightarrow> get E n w s = Some (Inr val, s1) \<Longrightarrow>
   strict_neq val (value_w (watchers s1 w)) \<or> isObject val \<or> deep (watchers s1 w) \<Longrightarrow>
   cb_call E (cb (watchers s1 w)) (vm (watchers s1 w)) val (value_w (watchers s1 w))
     (upd_watcher w (\<lambda>x. x\<lparr>value_w := val\<rparr>) s1) = (Inl e, s3) \<Longrightarrow>
   user (watchers s1 w) \<Longrightarrow> errorHandler E = Some h \<Longrightarrow>
   run E n w s = Some (h e (vm (watchers s3 w)) s3)"
  by (simp add: run_def Let_def)

lemma run_fires_throw_nohandler:
  "active (watchers s w) \<Longrightarrow> get E n w s = Some (Inr val, s1) \<Longrightarrow>
   strict_neq val (value_w (watchers s1 w)) \<or> isObject val \<or> deep (watchers s1 w) \<Longrightarrow>
   cb_call E (cb (watchers s1 w)) (vm (watchers s1 w)) val (value_w (watchers s1 w))
     (upd_watcher w (\<lambda>x. x\<lparr>value_w := val\<rparr>) s1) = (Inl e, s3) \<Longrightarrow>
   user (watchers s1 w) \<Longrightarrow> errorHandler E = None \<Longrightarrow>
   run E n w s =
     Some (Inl e, if production E then s3
                  else warn (watcher_error_msg (expression (watchers s3 w))) (vm (watchers s3 w)) s3)"
  by (simp add: run_def Let_def)

lemma update_lazy:
  "lazy (watchers s w) \<Longrightarrow>
   update E n w s = Some (Inr (), s\<lparr>watchers := (watchers s)(w := (watchers s w)\<lparr>dirty := True\<rparr>)\<rparr>)"
  by (simp add: update_def upd_watcher_def)

lemma update_sync:
  "\<not> lazy (watchers s w) \<Longrightarrow> sync (watchers s w) \<Longrightarrow> update E n w s = run E n w s"
  by (simp add: update_def)

lemma update_queue:
  "\<not> lazy (watchers s w) \<Longrightarrow> \<not> sync (watchers s w) \<Longrightarrow>
   update E n w s = Some (Inr (), queueWatcher w s)"
  by (simp add: update_def)

lemma update_inactive_depStore:
  "\<not> active (watchers s w) \<Longrightarrow> update E n w s = Some (r, s') \<Longrightarrow>
   depStore s' = depStore s \<and> r = Inr () \<and> (\<forall>w'. active (watchers s' w') = active (watchers s w'))"
  by (auto simp add: update_def run_inactive split: if_splits)

lemma fold_removeSub_simps [simp]:
  "watchers (fold (\<lambda>d. removeSub d w) ds s) = watchers s"
  "vms (fold (\<lambda>d. removeSub d w) ds s) = vms s"
  "heap (fold (\<lambda>d. removeSub d w) ds s) = heap s"
  "targetStack (fold (\<lambda>d. removeSub d w) ds s) = targetStack s"
  "queue (fold (\<lambda>d. removeSub d w) ds s) = queue s"
  "warnings (fold (\<lambda>d. removeSub d w) ds s) = warnings s"
  "id_dep (depStore (fold (\<lambda>d. removeSub d w) ds s) d') = id_dep (depStore s d')"
  by (induction ds arbitrary: s; simp)+

lemma fold_removeSub_subs:
  "subs (depStore (fold (\<lambda>d. removeSub d w) ds s) d) =
     (remove1 w ^^ count_list ds d) (subs (depStore s d))"
proof (induction ds arbitrary: s)
  case Nil
  show ?case by simp
next
  case (Cons x xs)
  show ?case by (simp add: Cons.IH funpow_swap1)
qed

lemma teardown_inactive: "\<not> active (watchers s w) \<Longrightarrow> teardown w s = s"
  by (simp add: teardown_def)

lemma teardown_active_after: "\<not> active (watchers (teardown w s) w)"
  by (simp add: teardown_def Let_def)

lemma teardown_idem: "teardown w (teardown w s) = teardown w s"
  by (rule teardown_inactive) (rule teardown_active_after)

lemma teardown_subs:
  "active (watchers s w) \<Longrightarrow>
   subs (depStore (teardown w s) d) =
     (remove1 w ^^ count_list (deps (watchers s w)) d) (subs (depStore s d))"
  by (simp add: teardown_def Let_def fold_removeSub_subs)

lemma teardown_removed:
  assumes "active (watchers s w)" and "d \<in> set (deps (watchers s w))"
    and "count_list (subs (depStore s d)) w \<le> 1"
  shows "w \<notin> set (subs (depStore (teardown w s) d))"
proof -
  from assms(2) have "0 < count_list (deps (watchers s w)) d"
    using count_list_0_iff [of "deps (watchers s w)" d] by simp
  with assms(3)
  have "w \<notin> set ((remove1 w ^^ count_list (deps (watchers s w)) d) (subs (depStore s d)))"
    by (rule funpow_remove1_notin)
  with assms(1) show ?thesis by (simp add: teardown_subs)
qed

lemma teardown_vm:
  "active (watchers s w) \<Longrightarrow>
   vms (teardown w s) =
     (if vm_isBeingDestroyed (vms s (vm (watchers s w))) then vms s
      else (vms s)(vm (watchers s w) :=
             (vms s (vm (watchers s w)))\<lparr>vm_watchers := remove1 w (vm_watchers (vms s (vm (watchers s w))))\<rparr>))"
  by (simp add: teardown_def Let_def remove_def)

lemma teardown_watchers:
  "active (watchers s w) \<Longrightarrow>
   watchers (teardown w s) = (watchers s)(w := (watchers s w)\<lparr>active := False\<rparr>)"
  by (simp add: teardown_def Let_def)


lemma Watcher_init_watcher:
  "watchers (Watcher_init E v x c opts s) =
     (watchers s)(Suc (uid s) :=
        \<lparr>vm = v, expression = (if \<not> production E then toString E x else []),
         cb = c, id_w = Suc (uid s),
         deep = (case opts of Some o' \<Rightarrow> truthy (opt_deep o') | None \<Rightarrow> False),
         user = (case opts of Some o' \<Rightarrow> truthy (opt_user o') | None \<Rightarrow> False),
         lazy = (case opts of Some o' \<Rightarrow> truthy (opt_lazy o') | None \<Rightarrow> False),
         sync = (case opts of Some o' \<Rightarrow> truthy (opt_sync o') | None \<Rightarrow> False),
         dirty = (case opts of Some o' \<Rightarrow> truthy (opt_lazy o') | None \<Rightarrow> False),
         active = True, deps = [], newDeps = [], depIds = {}, newDepIds = {},
         getter = (case x of Fn f \<Rightarrow> GFn f
                   | Path p \<Rightarrow> (case parsePath E p of Some f \<Rightarrow> GFn f | None \<Rightarrow> GNoop)),
         value_w = VUndefined\<rparr>)"
proof (cases x)
  case (Fn f)
  then show ?thesis by (simp add: Watcher_init_def Let_def)
next
  case (Path p)
  then show ?thesis by (cases "parsePath E p") (simp_all add: Watcher_init_def Let_def)
qed

lemma Watcher_init_depStore: "depStore (Watcher_init E v x c opts s) = depStore s"
proof (cases x)
  case (Fn f)
  then show ?thesis by (simp add: Watcher_init_def Let_def)
next
  case (Path p)
  then show ?thesis by (cases "parsePath E p") (simp_all add: Watcher_init_def Let_def)
qed

lemma Watcher_new_lazy:
  "truthy (opt_lazy opts) \<Longrightarrow>
   \<exists>s1. Watcher_new E n v x c (Some opts) s = Some (Inr (Suc (uid s)), s1) \<and>
        lazy (watchers s1 (Suc (uid s))) \<and>
        sync (watchers s1 (Suc (uid s))) = truthy (opt_sync opts) \<and>
        dirty (watchers s1 (Suc (uid s))) \<and>
        value_w (watchers s1 (Suc (uid s))) = VUndefined"
  by (simp add: Watcher_new_def Let_def Watcher_init_watcher)

section \<open>Facts about the deep traversal\<close>

lemma same_graph_refl [simp]: "same_graph s s"
  by (simp add: same_graph_def)

lemma same_graph_trans: "same_graph s t \<Longrightarrow> same_graph t u \<Longrightarrow> same_graph s u"
  by (simp add: same_graph_def)

lemma same_graph_touch [simp]: "same_graph s (touch ds t) = same_graph s t"
  by (simp add: same_graph_def)

lemma same_graph_enter [simp]: "same_graph s (enter a obj t) = same_graph s t"
  by (simp add: same_graph_def)

lemma same_graph_heap_ids: "same_graph s t \<Longrightarrow> heap_ids t = heap_ids s"
  by (auto simp add: same_graph_def heap_ids_def split: option.splits)

lemma same_graph_plain: "same_graph s t \<Longrightarrow> plain t = plain s"
  by (simp add: same_graph_def plain_def fun_eq_iff)

lemma same_graph_touch_left [simp]: "same_graph (touch ds s) t = same_graph s t"
  by (simp add: same_graph_def)

lemma same_graph_enter_left [simp]: "same_graph (enter a obj s) t = same_graph s t"
  by (simp add: same_graph_def)

lemma heap_ids_touch [simp]: "heap_ids (touch ds s) = heap_ids s"
  by (rule same_graph_heap_ids) simp

lemma heap_ids_enter [simp]: "heap_ids (enter a obj s) = heap_ids s"
  by (rule same_graph_heap_ids) simp

lemma grows_refl [simp]: "grows s s"
  by (simp add: grows_def)

lemma grows_trans: "grows s t \<Longrightarrow> grows t u \<Longrightarrow> grows s u"
  by (auto simp add: grows_def intro: same_graph_trans)

lemma grows_touch [simp]: "grows s (touch ds t) = grows s t"
  by (simp add: grows_def)

lemma grows_enter: "grows s t \<Longrightarrow> grows s (enter a obj t)"
  by (auto simp add: grows_def split: option.splits)

lemma traverse_inner_grows: "traverse_inner n val s = Some s' \<Longrightarrow> grows s s'"
  by (erule traverse_inner_pres [where Q = "grows s", rotated 2]) (simp_all add: grows_enter)

lemma traverse_loop_grows:
  "traverse_loop (traverse_inner n) rs s = Some s' \<Longrightarrow> grows s s'"
proof (erule traverse_loop_pres [where Q = "grows s", rotated 2])
  show "grows s s" by simp
next
  fix v t t'
  assume "traverse_inner n v t = Some t'" and "grows s t"
  then show "grows s t'" by (blast intro: grows_trans traverse_inner_grows)
next
  fix ds t
  assume "grows s t"
  then show "grows s (touch ds t)" by simp
qed

text \<open>The reads of a composite yield exactly the values it holds.\<close>

lemma reads_Arr_set: "set (reads (Arr xs)) = (\<lambda>v. (v, [])) ` set xs"
  by simp

lemma reads_Obj_set: "set (reads (Obj kvs)) = ran (map_of kvs)"
proof (rule set_eqI)
  fix p
  show "p \<in> set (reads (Obj kvs)) \<longleftrightarrow> p \<in> ran (map_of kvs)"
  proof
    assume "p \<in> set (reads (Obj kvs))"
    then obtain k where k: "k \<in> fst ` set kvs"
      and p: "p = (case map_of kvs k of Some q \<Rightarrow> q | None \<Rightarrow> (VUndefined, []))"
      by auto
    from k obtain q where q: "map_of kvs k = Some q"
      using map_of_eq_None_iff [of kvs k] by (cases "map_of kvs k") simp_all
    with p show "p \<in> ran (map_of kvs)" by (simp add: ran_def) blast
  next
    assume "p \<in> ran (map_of kvs)"
    then obtain k where q: "map_of kvs k = Some p" by (auto simp add: ran_def)
    then have "(k, p) \<in> set kvs" by (rule map_of_SomeD)
    then have "k \<in> fst ` set kvs" by force
    with q show "p \<in> set (reads (Obj kvs))" by (force simp add: image_iff)
  qed
qed

lemma reads_children: "fst ` set (reads b) = children b"
  by (cases b) (simp_all add: reads_Obj_set reads_Arr_set image_image del: reads.simps)

lemma reads_child: "(v, ds) \<in> set (reads b) \<Longrightarrow> v \<in> children b"
  using reads_children [of b] by force

lemma child_reads: "v \<in> children b \<Longrightarrow> \<exists>ds. (v, ds) \<in> set (reads b)"
  using reads_children [of b] by force

lemma reads_deps:
  "(\<Union>(v, ds) \<in> set (reads b). set ds) =
     (case b of Arr xs \<Rightarrow> {} | Obj kvs \<Rightarrow> (\<Union>(v, ds) \<in> ran (map_of kvs). set ds))"
  by (cases b) (simp_all add: reads_Obj_set reads_Arr_set del: reads.simps)

lemma reach_heap_mono: "reach s val v \<Longrightarrow> heap t = heap s \<Longrightarrow> reach t val v"
proof (induction rule: reach.induct)
  case start
  show ?case by (rule reach.start)
next
  case (step a obj v)
  have r: "reach t val (VRef a)" by (rule step.IH) (rule step.prems)
  from step.hyps(2) step.prems have m: "map_of (heap t) a = Some obj" by simp
  show ?case by (rule reach.step [OF r m step.hyps(3,4)])
qed

lemma reach_heap_cong: "heap t = heap s \<Longrightarrow> reach t val = reach s val"
proof -
  assume h: "heap t = heap s"
  then have h': "heap s = heap t" by simp
  have "\<And>v. reach t val v = reach s val v"
  proof
    fix v assume "reach t val v"
    then show "reach s val v" using h' by (rule reach_heap_mono)
  next
    fix v assume "reach s val v"
    then show "reach t val v" using h by (rule reach_heap_mono)
  qed
  then show ?thesis by (simp add: fun_eq_iff)
qed

lemma reach_child:
  assumes "reach s val (VRef a)" and "map_of (heap s) a = Some obj" and "extensible obj"
    and "(v, ds) \<in> set (reads (body obj))"
  shows "reach s val v"
proof -
  from assms(4) have "v \<in> children (body obj)" by (rule reads_child)
  with assms(1,2,3) show ?thesis by (rule reach.step)
qed

text \<open>More depth does not change a walk that came back.\<close>

lemma traverse_loop_mono:
  assumes "\<And>v t t'. f v t = Some t' \<Longrightarrow> g v t = Some t'"
  shows "traverse_loop f rs s = Some s' \<Longrightarrow> traverse_loop g rs s = Some s'"
proof (induction rs arbitrary: s)
  case Nil
  then show ?case by simp
next
  case (Cons r rs)
  obtain v ds where r: "r = (v, ds)" by (cases r)
  from Cons.prems r obtain t where t: "f v (touch ds s) = Some t"
    and rest: "traverse_loop f rs t = Some s'"
    by (auto split: option.splits)
  from t have "g v (touch ds s) = Some t" by (rule assms)
  moreover from rest have "traverse_loop g rs t = Some s'" by (rule Cons.IH)
  ultimately show ?case using r by simp
qed

lemma traverse_inner_Suc:
  "traverse_inner n val s = Some s' \<Longrightarrow> traverse_inner (Suc n) val s = Some s'"
proof (induction n arbitrary: val s s')
  case 0
  then show ?case by simp
next
  case (Suc n)
  show ?case
  proof (cases "walks val s")
    case None
    with Suc.prems show ?thesis by (simp add: traverse_inner_unfold del: traverse_inner.simps)
  next
    case (Some p)
    obtain a obj where p: "p = (a, obj)" by (cases p)
    from Suc.prems Some p
    have "traverse_loop (traverse_inner n) (reads (body obj)) (enter a obj s) = Some s'"
      by (simp add: traverse_inner_unfold del: traverse_inner.simps)
    then have "traverse_loop (traverse_inner (Suc n)) (reads (body obj)) (enter a obj s) = Some s'"
      by (rule traverse_loop_mono [rotated]) (rule Suc.IH)
    with Some p show ?thesis
      by (simp add: traverse_inner_unfold [of "Suc n"] del: traverse_inner.simps)
  qed
qed

lemma traverse_inner_mono:
  "traverse_inner n val s = Some s' \<Longrightarrow> n \<le> m \<Longrightarrow> traverse_inner m val s = Some s'"
  by (induction m) (auto simp add: le_Suc_eq dest: traverse_inner_Suc simp del: traverse_inner.simps)


lemma traverse_loop_mono_fuel:
  "traverse_loop (traverse_inner n) rs s = Some s' \<Longrightarrow> n \<le> m \<Longrightarrow>
   traverse_loop (traverse_inner m) rs s = Some s'"
  by (erule traverse_loop_mono [rotated]) (erule (1) traverse_inner_mono)

lemma finite_heap_ids [simp]: "finite (heap_ids s)"
  by (auto simp add: heap_ids_def split: option.splits)

lemma grows_unseen: "grows s t \<Longrightarrow> unseen t \<le> unseen s"
proof -
  assume g: "grows s t"
  then have "heap_ids t = heap_ids s" by (simp add: grows_def same_graph_heap_ids)
  moreover from g have "seenObjects s \<subseteq> seenObjects t" by (simp add: grows_def)
  ultimately have "heap_ids t - seenObjects t \<subseteq> heap_ids s - seenObjects s" by auto
  then show ?thesis unfolding unseen_def by (intro card_mono) simp_all
qed

lemma unseen_touch [simp]: "unseen (touch ds s) = unseen s"
  by (simp add: unseen_def)

lemma enter_marked_unseen:
  assumes "map_of (heap s) a = Some obj" and "ob obj = Some d" and "\<not> already_seen obj s"
  shows "unseen (enter a obj s) < unseen s"
proof -
  let ?i = "id_dep (depStore s d)"
  from assms(1) have "(a, obj) \<in> set (heap s)" by (rule map_of_SomeD)
  with assms(2) have "?i \<in> heap_ids s" by (force simp add: heap_ids_def)
  moreover from assms(2,3) have "?i \<notin> seenObjects s" by (simp add: already_seen_def)
  moreover have "heap_ids (enter a obj s) = heap_ids s" by simp
  moreover from assms(2) have "seenObjects (enter a obj s) = insert ?i (seenObjects s)" by simp
  ultimately have "heap_ids (enter a obj s) - seenObjects (enter a obj s) \<subset> heap_ids s - seenObjects s"
    by auto
  then show ?thesis unfolding unseen_def by (intro psubset_card_mono) simp_all
qed

lemma enter_plain_unseen: "ob obj = None \<Longrightarrow> unseen (enter a obj s) = unseen s"
  by (simp add: unseen_def)

text \<open>A loop over reads comes back when every walk it starts does.\<close>

lemma traverse_loop_returns:
  assumes each: "\<And>v ds t. (v, ds) \<in> set rs \<Longrightarrow> same_graph s0 t \<Longrightarrow> unseen t \<le> k \<Longrightarrow>
                   \<exists>n t'. traverse_inner n v t = Some t'"
  shows "same_graph s0 s \<Longrightarrow> unseen s \<le> k \<Longrightarrow>
         \<exists>n s'. traverse_loop (traverse_inner n) rs s = Some s'"
  using each
proof (induction rs arbitrary: s)
  case Nil
  show ?case by simp
next
  case (Cons r rs)
  obtain v ds where r: "r = (v, ds)" by (cases r)
  from Cons.prems(1,2) have "same_graph s0 (touch ds s)" "unseen (touch ds s) \<le> k" by simp_all
  with Cons.prems(3) [of v ds "touch ds s"] r
  obtain n1 t where t: "traverse_inner n1 v (touch ds s) = Some t" by auto
  then have g: "grows (touch ds s) t" by (rule traverse_inner_grows)
  with Cons.prems(1) have sg: "same_graph s0 t"
    by (auto simp add: grows_def intro: same_graph_trans)
  from g Cons.prems(2) have un: "unseen t \<le> k"
    using grows_unseen [of "touch ds s" t] by simp
  have "\<exists>n2 s'. traverse_loop (traverse_inner n2) rs t = Some s'"
  proof (rule Cons.IH [OF sg un])
    fix v' ds' t'
    assume "(v', ds') \<in> set rs" "same_graph s0 t'" "unseen t' \<le> k"
    then show "\<exists>n t''. traverse_inner n v' t' = Some t''"
      using Cons.prems(3) [of v' ds' t'] by simp
  qed
  then obtain n2 s' where s': "traverse_loop (traverse_inner n2) rs t = Some s'" by blast
  from t have "traverse_inner (max n1 n2) v (touch ds s) = Some t"
    by (rule traverse_inner_mono) simp
  moreover from s' have "traverse_loop (traverse_inner (max n1 n2)) rs t = Some s'"
    by (rule traverse_loop_mono_fuel) simp
  ultimately have "traverse_loop (traverse_inner (max n1 n2)) (r # rs) s = Some s'"
    using r by simp
  then show ?case by blast
qed

lemma ranked_child:
  assumes "ranked rk s val0" and "reach s val0 (VRef a)" and "map_of (heap s) a = Some obj"
    and "extensible obj" and "ob obj = None" and "(v, ds) \<in> set (reads (body obj))"
  shows "vrank rk s v < vrank rk s (VRef a)"
proof -
  from assms(6) have ch: "v \<in> children (body obj)" by (rule reads_child)
  from assms(3,4,5) have pa: "plain s a" by (simp add: plain_def)
  show ?thesis
  proof (cases v)
    case (VRef c)
    show ?thesis
    proof (cases "plain s c")
      case True
      with assms(1,2,3,4,5) ch VRef have "rk c < rk a" unfolding ranked_def by blast
      with pa True VRef show ?thesis by (simp add: vrank_def)
    next
      case False
      with pa VRef show ?thesis by (simp add: vrank_def)
    qed
  qed (simp_all add: vrank_def pa)
qed

lemma traverse_inner_returns_bounded:
  assumes rk: "ranked rk s0 val0"
  shows "same_graph s0 s \<Longrightarrow> unseen s \<le> k \<Longrightarrow> reach s0 val0 val \<Longrightarrow>
         \<exists>n s'. traverse_inner n val s = Some s'"
proof (induction k arbitrary: val s rule: less_induct)
  case (less k)
  note outer = less.IH
  from less.prems show ?case
  proof (induction "vrank rk s0 val" arbitrary: val s rule: less_induct)
    case less
    note inner = less.hyps
    note sg = less.prems(1)
    note un = less.prems(2)
    note rv = less.prems(3)
    show ?case
    proof (cases "walks val s")
      case None
      then have "traverse_inner (Suc 0) val s = Some s"
        by (simp add: traverse_inner_unfold del: traverse_inner.simps)
      then show ?thesis by blast
    next
      case (Some p)
      obtain a obj where p: "p = (a, obj)" by (cases p)
      from Some p have w: "val = VRef a" "map_of (heap s) a = Some obj" "extensible obj"
        "\<not> already_seen obj s"
        by (simp_all add: walks_Some)
      from sg have sge: "same_graph s0 (enter a obj s)" by simp
      from sg w(2) have h0: "map_of (heap s0) a = Some obj" by (simp add: same_graph_def)
      from rv w(1) have ra: "reach s0 val0 (VRef a)" by simp
      have kid: "\<And>v ds. (v, ds) \<in> set (reads (body obj)) \<Longrightarrow> reach s0 val0 v"
        by (rule reach_child [OF ra h0 w(3)])
      have "\<exists>n s'. traverse_loop (traverse_inner n) (reads (body obj)) (enter a obj s) = Some s'"
      proof (cases "ob obj")
        case None
        with un have une: "unseen (enter a obj s) \<le> k" by (simp add: enter_plain_unseen)
        show ?thesis
        proof (rule traverse_loop_returns [OF _ sge une])
          fix v ds t
          assume r: "(v, ds) \<in> set (reads (body obj))" and t: "same_graph s0 t" "unseen t \<le> k"
          from rk ra h0 w(3) None r have "vrank rk s0 v < vrank rk s0 (VRef a)"
            by (rule ranked_child)
          with w(1) have lt: "vrank rk s0 v < vrank rk s0 val" by simp
          from r have "reach s0 val0 v" by (rule kid)
          with lt t show "\<exists>n t'. traverse_inner n v t = Some t'"
            by (rule inner)
        qed
      next
        case (Some d)
        with w(2,4) have lt: "unseen (enter a obj s) < unseen s" by (intro enter_marked_unseen)
        with un have j: "unseen (enter a obj s) < k" by simp
        show ?thesis
        proof (rule traverse_loop_returns [OF _ sge order_refl])
          fix v ds t
          assume r: "(v, ds) \<in> set (reads (body obj))"
            and t: "same_graph s0 t" "unseen t \<le> unseen (enter a obj s)"
          from r have "reach s0 val0 v" by (rule kid)
          with t show "\<exists>n t'. traverse_inner n v t = Some t'"
            by (rule outer [OF j])
        qed
      qed
      then obtain n s' where "traverse_loop (traverse_inner n) (reads (body obj)) (enter a obj s) = Some s'"
        by blast
      with \<open>walks val s = Some p\<close> p have "traverse_inner (Suc n) val s = Some s'"
        by (simp add: traverse_inner_unfold del: traverse_inner.simps)
      then show ?thesis by blast
    qed
  qed
qed

lemma traverse_inner_returns:
  "ranked rk s val \<Longrightarrow> \<exists>n s'. \<forall>m \<ge> n. traverse_inner m val s = Some s'"
proof -
  assume "ranked rk s val"
  then have "\<exists>n s'. traverse_inner n val s = Some s'"
    using traverse_inner_returns_bounded
      [where ?s0.0 = s and ?val0.0 = val and s = s and k = "unseen s" and val = val and rk = rk]
    by (simp add: reach.start)
  then obtain n s' where "traverse_inner n val s = Some s'" by blast
  then have "\<forall>m \<ge> n. traverse_inner m val s = Some s'"
    by (blast intro: traverse_inner_mono)
  then show ?thesis by blast
qed

lemma marker_of_same_graph: "same_graph s t \<Longrightarrow> marker_of t = marker_of s"
  by (auto simp add: marker_of_def same_graph_def fun_eq_iff split: option.splits)

lemma marker_of_touch [simp]: "marker_of (touch ds s) = marker_of s"
  by (rule marker_of_same_graph) simp

lemma marker_of_enter [simp]: "marker_of (enter a obj s) = marker_of s"
  by (rule marker_of_same_graph) simp

lemma marked_touch [simp]: "marked (touch ds s) = marked s"
  by (simp add: marked_def fun_eq_iff)

lemma marked_enter [simp]: "marked (enter a obj s) = marked s"
  by (simp add: marked_def fun_eq_iff)

lemma marker_ids_iff: "i \<in> marker_ids s as \<longleftrightarrow> (\<exists>a \<in> set as. marker_of s a = Some i)"
  by (force simp add: marker_ids_def map_filter_def)

lemma marker_ids_same_graph: "same_graph s t \<Longrightarrow> marker_ids t as = marker_ids s as"
  by (simp add: marker_ids_def marker_of_same_graph)

lemma marker_ids_snoc:
  "marker_ids s (as @ [a]) = marker_ids s as \<union> (case marker_of s a of None \<Rightarrow> {} | Some i \<Rightarrow> {i})"
  by (auto simp add: marker_ids_iff split: option.splits)

lemma marked_same_graph: "same_graph s t \<Longrightarrow> marked t = marked s"
  by (simp add: marked_def marker_of_same_graph fun_eq_iff)

lemma marker_of_obj:
  "map_of (heap s) a = Some obj \<Longrightarrow> marker_of s a = map_option (\<lambda>d. id_dep (depStore s d)) (ob obj)"
  by (simp add: marker_of_def)

lemma already_seen_marker:
  "map_of (heap s) a = Some obj \<Longrightarrow>
   already_seen obj s = (case marker_of s a of None \<Rightarrow> False | Some i \<Rightarrow> i \<in> seenObjects s)"
  by (cases "ob obj") (simp_all add: marker_of_def already_seen_def)

lemma seen_enter_marker:
  "map_of (heap s) a = Some obj \<Longrightarrow>
   seenObjects (enter a obj s) = seenObjects s \<union> (case marker_of s a of None \<Rightarrow> {} | Some i \<Rightarrow> {i})"
  by (cases "ob obj") (simp_all add: marker_of_def)

lemma once_inv_touch [simp]: "once_inv b (touch ds s) = once_inv b s"
  by (simp add: once_inv_def marker_ids_def)

lemma once_inv_enter:
  assumes inv: "once_inv b s" and w: "walks v s = Some (a, obj)"
  shows "once_inv b (enter a obj s)"
proof -
  from w have h: "map_of (heap s) a = Some obj" "\<not> already_seen obj s" by (simp_all add: walks_Some)
  from inv have b: "b \<le> length (walked s)"
    and d: "distinct (map (marker_of s) (filter (marked s) (drop b (walked s))))"
    and sn: "seenObjects s = marker_ids s (drop b (walked s))"
    by (simp_all add: once_inv_def)
  have eq: "marker_ids (enter a obj s) = marker_ids s"
    by (simp add: marker_ids_def fun_eq_iff)
  from b have dr: "drop b (walked (enter a obj s)) = drop b (walked s) @ [a]" by simp
  have "marked s a \<Longrightarrow> marker_of s a \<notin> marker_of s ` set (drop b (walked s))"
  proof
    assume m: "marked s a" and "marker_of s a \<in> marker_of s ` set (drop b (walked s))"
    from m obtain i where i: "marker_of s a = Some i" by (auto simp add: marked_def)
    with \<open>marker_of s a \<in> marker_of s ` set (drop b (walked s))\<close>
    have "i \<in> marker_ids s (drop b (walked s))"
      by (auto simp add: marker_ids_iff)
    with sn i h show False by (simp add: already_seen_marker)
  qed
  with d have "distinct (map (marker_of s) (filter (marked s) (drop b (walked s) @ [a])))"
    by auto
  moreover from sn have "seenObjects (enter a obj s) = marker_ids s (drop b (walked s) @ [a])"
    unfolding seen_enter_marker [OF h(1)] by (simp add: marker_ids_snoc)
  ultimately show ?thesis using b by (simp add: once_inv_def eq dr)
qed

lemma traverse_inner_once: "traverse_inner n val s = Some s' \<Longrightarrow> once_inv b s \<Longrightarrow> once_inv b s'"
  by (erule traverse_inner_pres [where Q = "once_inv b", rotated 2]) (simp_all add: once_inv_enter)

lemma distinct_filter_count: "distinct (filter P xs) \<Longrightarrow> P a \<Longrightarrow> count_list xs a \<le> 1"
  by (induction xs) (auto simp add: count_list_0_iff split: if_splits)

lemma distinct_map_filter_count:
  "distinct (map f (filter P xs)) \<Longrightarrow> P a \<Longrightarrow> count_list xs a \<le> 1"
  using distinct_filter_count [of P xs a] by (simp add: distinct_map)

lemma distinct_map_unique:
  "distinct (map f xs) \<Longrightarrow> a \<in> set xs \<Longrightarrow> a' \<in> set xs \<Longrightarrow> f a = f a' \<Longrightarrow> a = a'"
  by (auto simp add: distinct_map inj_on_def)

lemma grows_walked_drop:
  "grows s t \<Longrightarrow> set (drop b (walked s)) \<subseteq> set (drop b (walked t))"
  by (auto simp add: grows_def)

lemma grows_length: "grows s t \<Longrightarrow> length (walked s) \<le> length (walked t)"
  by (auto simp add: grows_def)

lemma grows_already_seen:
  "grows s t \<Longrightarrow> already_seen obj s \<Longrightarrow> already_seen obj t"
  by (auto simp add: grows_def same_graph_def already_seen_def split: option.splits)

lemma grows_walks:
  "grows s t \<Longrightarrow> walks v t = Some (c, cobj) \<Longrightarrow> walks v s = Some (c, cobj)"
  by (auto simp add: walks_Some grows_already_seen) (simp add: grows_def same_graph_def)

lemma handled_grows: "grows s t \<Longrightarrow> handled b s v \<Longrightarrow> handled b t v"
proof (cases "walks v t")
  case None
  then show ?thesis by (simp add: handled_def)
next
  case (Some p)
  assume g: "grows s t" and h: "handled b s v"
  obtain c cobj where p: "p = (c, cobj)" by (cases p)
  with g Some have "walks v s = Some (c, cobj)" by (simp add: grows_walks)
  with h have "c \<in> set (drop b (walked s))" by (simp add: handled_def)
  with g have "c \<in> set (drop b (walked t))" using grows_walked_drop by blast
  with Some p show ?thesis by (simp add: handled_def)
qed

lemma children_handled_grows:
  "grows s t \<Longrightarrow> children_handled b s a \<Longrightarrow> children_handled b t a"
proof -
  assume g: "grows s t" and c: "children_handled b s a"
  from g have "heap t = heap s" by (simp add: grows_def same_graph_def)
  with g c show ?thesis
    by (auto simp add: children_handled_def split: option.splits intro: handled_grows)
qed

lemma traverse_inner_handled:
  assumes "traverse_inner n v s = Some s'" and "b \<le> length (walked s)"
  shows "handled b s' v"
proof (cases n)
  case 0
  with assms show ?thesis by simp
next
  case (Suc m)
  show ?thesis
  proof (cases "walks v s")
    case None
    with assms Suc have "s' = s" by (simp add: traverse_inner_unfold del: traverse_inner.simps)
    with None show ?thesis by (simp add: handled_def)
  next
    case (Some p)
    obtain a obj where p: "p = (a, obj)" by (cases p)
    from assms(1) Suc Some p
    have "traverse_loop (traverse_inner m) (reads (body obj)) (enter a obj s) = Some s'"
      by (simp add: traverse_inner_unfold del: traverse_inner.simps)
    then have g: "grows (enter a obj s) s'" by (rule traverse_loop_grows)
    from assms(2) have "a \<in> set (drop b (walked (enter a obj s)))" by simp
    with g have a: "a \<in> set (drop b (walked s'))" using grows_walked_drop by blast
    from Some p have "v = VRef a" by (simp add: walks_Some)
    with a show ?thesis by (auto simp add: handled_def walks_Some split: option.splits)
  qed
qed

lemma traverse_loop_closed:
  assumes f_closed: "\<And>v t t'. f v t = Some t' \<Longrightarrow> b \<le> length (walked t) \<Longrightarrow>
                       \<forall>a \<in> set (drop (length (walked t)) (walked t')). children_handled b t' a"
    and f_handled: "\<And>v t t'. f v t = Some t' \<Longrightarrow> b \<le> length (walked t) \<Longrightarrow> handled b t' v"
    and f_grows: "\<And>v t t'. f v t = Some t' \<Longrightarrow> grows t t'"
  shows "traverse_loop f rs s = Some s' \<Longrightarrow> b \<le> length (walked s) \<Longrightarrow>
         grows s s' \<and>
         (\<forall>a \<in> set (drop (length (walked s)) (walked s')). children_handled b s' a) \<and>
         (\<forall>(v, ds) \<in> set rs. handled b s' v)"
proof (induction rs arbitrary: s)
  case Nil
  then show ?case by simp
next
  case (Cons r rs)
  obtain v ds where r: "r = (v, ds)" by (cases r)
  from Cons.prems(1) r obtain t where t: "f v (touch ds s) = Some t"
    and rest: "traverse_loop f rs t = Some s'"
    by (auto split: option.splits)
  from Cons.prems(2) have b0: "b \<le> length (walked (touch ds s))" by simp
  from t have g1: "grows (touch ds s) t" by (rule f_grows)
  then have g1': "grows s t" by (simp add: grows_def)
  from g1' Cons.prems(2) have bt: "b \<le> length (walked t)"
    using grows_length [of s t] by simp
  from Cons.IH [OF rest bt]
  have g2: "grows t s'"
    and c2: "\<forall>a \<in> set (drop (length (walked t)) (walked s')). children_handled b s' a"
    and h2: "\<forall>(v, ds) \<in> set rs. handled b s' v"
    by simp_all
  from f_closed [OF t b0]
  have c1: "\<forall>a \<in> set (drop (length (walked s)) (walked t)). children_handled b t a" by simp
  from f_handled [OF t b0] g2 have hv: "handled b s' v" by (blast intro: handled_grows)
  from g1' obtain new1 where n1: "walked t = walked s @ new1" by (auto simp add: grows_def)
  from g2 obtain new2 where n2: "walked s' = walked t @ new2" by (auto simp add: grows_def)
  have "\<forall>a \<in> set (drop (length (walked s)) (walked s')). children_handled b s' a"
  proof
    fix a
    assume "a \<in> set (drop (length (walked s)) (walked s'))"
    with n1 n2 have "a \<in> set new1 \<or> a \<in> set new2" by auto
    then show "children_handled b s' a"
    proof
      assume "a \<in> set new1"
      with c1 n1 have "children_handled b t a" by simp
      with g2 show ?thesis by (rule children_handled_grows)
    next
      assume "a \<in> set new2"
      with c2 n2 show ?thesis by simp
    qed
  qed
  moreover from g1' g2 have "grows s s'" by (rule grows_trans)
  ultimately show ?case using hv h2 r by simp
qed

lemma traverse_inner_closed:
  "traverse_inner n v s = Some s' \<Longrightarrow> b \<le> length (walked s) \<Longrightarrow>
   \<forall>a \<in> set (drop (length (walked s)) (walked s')). children_handled b s' a"
proof (induction n arbitrary: v s s')
  case 0
  then show ?case by simp
next
  case (Suc n)
  show ?case
  proof (cases "walks v s")
    case None
    with Suc.prems have "s' = s" by (simp add: traverse_inner_unfold del: traverse_inner.simps)
    then show ?thesis by simp
  next
    case (Some p)
    obtain a obj where p: "p = (a, obj)" by (cases p)
    from Some p have w: "map_of (heap s) a = Some obj" by (simp add: walks_Some)
    from Suc.prems(1) Some p
    have loop: "traverse_loop (traverse_inner n) (reads (body obj)) (enter a obj s) = Some s'"
      by (simp add: traverse_inner_unfold del: traverse_inner.simps)
    from Suc.prems(2) have be: "b \<le> length (walked (enter a obj s))" by simp
    have "grows (enter a obj s) s' \<and>
          (\<forall>x \<in> set (drop (length (walked (enter a obj s))) (walked s')). children_handled b s' x) \<and>
          (\<forall>(c, ds) \<in> set (reads (body obj)). handled b s' c)"
      using loop be
    proof (rule traverse_loop_closed [rotated 3])
      fix c t t'
      assume "traverse_inner n c t = Some t'" and "b \<le> length (walked t)"
      then show "\<forall>a \<in> set (drop (length (walked t)) (walked t')). children_handled b t' a"
        by (rule Suc.IH)
    next
      fix c t t'
      assume "traverse_inner n c t = Some t'" and "b \<le> length (walked t)"
      then show "handled b t' c" by (rule traverse_inner_handled)
    next
      fix c t t'
      assume "traverse_inner n c t = Some t'"
      then show "grows t t'" by (rule traverse_inner_grows)
    qed
    then have g: "grows (enter a obj s) s'"
      and cl: "\<forall>x \<in> set (drop (Suc (length (walked s))) (walked s')). children_handled b s' x"
      and hd: "\<forall>(c, ds) \<in> set (reads (body obj)). handled b s' c"
      by simp_all
    from g obtain new where new: "walked s' = walked s @ a # new" by (auto simp add: grows_def)
    from g w have "map_of (heap s') a = Some obj" by (simp add: grows_def same_graph_def)
    with hd have "children_handled b s' a" by (simp add: children_handled_def)
    with cl new show ?thesis by simp
  qed
qed

lemma ranked_clear [simp]: "ranked rk (s\<lparr>seenObjects := X\<rparr>) val = ranked rk s val"
proof -
  have p: "plain (s\<lparr>seenObjects := X\<rparr>) = plain s" by (simp add: plain_def fun_eq_iff)
  have r: "reach (s\<lparr>seenObjects := X\<rparr>) val = reach s val" by (rule reach_heap_cong) simp
  show ?thesis unfolding ranked_def p r by simp
qed

lemma traverse_mono: "traverse n val s = Some s' \<Longrightarrow> n \<le> m \<Longrightarrow> traverse m val s = Some s'"
  unfolding traverse_def by (rule traverse_inner_mono)

lemma traverse_returns: "ranked rk s val \<Longrightarrow> \<exists>n s'. \<forall>m \<ge> n. traverse m val s = Some s'"
  unfolding traverse_def by (rule traverse_inner_returns) simp

lemma traverse_cleared: "traverse n val (s\<lparr>seenObjects := X\<rparr>) = traverse n val s"
  by (simp add: traverse_def)

text \<open>
  A refined preservation rule: the property \<open>P\<close> of the values the walk is called on
  passes from a composite to the values it holds, and \<open>Q\<close> need only be kept by the
  reads of a composite that is in the log.
\<close>

lemma traverse_loop_pres2:
  assumes step: "\<And>v ds t t'. (v, ds) \<in> set rs \<Longrightarrow> grows s0 t \<Longrightarrow> f v t = Some t' \<Longrightarrow> Q t \<Longrightarrow>
                   Q t' \<and> grows t t'"
    and tch: "\<And>v ds t. (v, ds) \<in> set rs \<Longrightarrow> grows s0 t \<Longrightarrow> Q t \<Longrightarrow> Q (touch ds t)"
  shows "traverse_loop f rs s = Some s' \<Longrightarrow> grows s0 s \<Longrightarrow> Q s \<Longrightarrow> Q s'"
  using step tch
proof (induction rs arbitrary: s)
  case Nil
  then show ?case by simp
next
  case (Cons r rs)
  obtain v ds where r: "r = (v, ds)" by (cases r)
  from Cons.prems(1) r obtain t where t: "f v (touch ds s) = Some t"
    and rest: "traverse_loop f rs t = Some s'"
    by (auto split: option.splits)
  from r have mem: "(v, ds) \<in> set (r # rs)" by simp
  from Cons.prems(2) have g1: "grows s0 (touch ds s)" by simp
  have q1: "Q (touch ds s)" by (rule Cons.prems(5) [OF mem Cons.prems(2,3)])
  from Cons.prems(4) [OF mem g1 t q1] have q2: "Q t" and g2: "grows (touch ds s) t" by simp_all
  from g1 g2 have g3: "grows s0 t" by (rule grows_trans)
  show ?case
  proof (rule Cons.IH [OF rest g3 q2])
    fix v' ds' u u'
    assume "(v', ds') \<in> set rs" "grows s0 u" "f v' u = Some u'" "Q u"
    then show "Q u' \<and> grows u u'" using Cons.prems(4) [of v' ds' u u'] by simp
  next
    fix v' ds' u
    assume "(v', ds') \<in> set rs" "grows s0 u" "Q u"
    then show "Q (touch ds' u)" using Cons.prems(5) [of v' ds' u] by simp
  qed
qed

lemma traverse_inner_pres2:
  assumes ent: "\<And>v a obj t. P v \<Longrightarrow> Q t \<Longrightarrow> b \<le> length (walked t) \<Longrightarrow>
                  walks v t = Some (a, obj) \<Longrightarrow> Q (enter a obj t)"
    and kid: "\<And>v a obj t c ds. P v \<Longrightarrow> Q t \<Longrightarrow> walks v t = Some (a, obj) \<Longrightarrow>
                (c, ds) \<in> set (reads (body obj)) \<Longrightarrow> P c"
    and tch: "\<And>a obj c ds t. Q t \<Longrightarrow> map_of (heap t) a = Some obj \<Longrightarrow>
                a \<in> set (drop b (walked t)) \<Longrightarrow> (c, ds) \<in> set (reads (body obj)) \<Longrightarrow>
                Q (touch ds t)"
  shows "traverse_inner n val s = Some s' \<Longrightarrow> b \<le> length (walked s) \<Longrightarrow> P val \<Longrightarrow> Q s \<Longrightarrow> Q s'"
proof (induction n arbitrary: val s s')
  case 0
  then show ?case by simp
next
  case (Suc n)
  show ?case
  proof (cases "walks val s")
    case None
    with Suc.prems show ?thesis by (simp add: traverse_inner_unfold del: traverse_inner.simps)
  next
    case (Some p)
    obtain a obj where p: "p = (a, obj)" by (cases p)
    with Some have w: "walks val s = Some (a, obj)" by simp
    then have h: "map_of (heap s) a = Some obj" by (simp add: walks_Some)
    let ?s1 = "enter a obj s"
    from Suc.prems(1) w
    have loop: "traverse_loop (traverse_inner n) (reads (body obj)) ?s1 = Some s'"
      by (simp add: traverse_inner_unfold del: traverse_inner.simps)
    have q1: "Q ?s1" by (rule ent [OF Suc.prems(3,4,2) w])
    from Suc.prems(2) have a1: "a \<in> set (drop b (walked ?s1))" by simp
    have g1: "grows ?s1 ?s1" by simp
    show ?thesis
    proof (rule traverse_loop_pres2 [where ?s0.0 = ?s1 and Q = Q, OF _ _ loop g1 q1])
      fix c ds t t'
      assume r: "(c, ds) \<in> set (reads (body obj))" and g: "grows ?s1 t"
        and t: "traverse_inner n c t = Some t'" and q: "Q t"
      from g Suc.prems(2) have bt: "b \<le> length (walked t)"
        using grows_length [of ?s1 t] by simp
      have pc: "P c" by (rule kid [OF Suc.prems(3,4) w r])
      have "Q t'" by (rule Suc.IH [OF t bt pc q])
      moreover from t have "grows t t'" by (rule traverse_inner_grows)
      ultimately show "Q t' \<and> grows t t'" by simp
    next
      fix c ds t
      assume r: "(c, ds) \<in> set (reads (body obj))" and g: "grows ?s1 t" and q: "Q t"
      from g h have ht: "map_of (heap t) a = Some obj" by (simp add: grows_def same_graph_def)
      from g a1 have at: "a \<in> set (drop b (walked t))" using grows_walked_drop by blast
      show "Q (touch ds t)" by (rule tch [OF q ht at r])
    qed
  qed
qed

text \<open>The walk enters only composites that are reachable from the value it starts
  from.\<close>

lemma traverse_inner_within:
  assumes t: "traverse_inner n val s = Some s'" and b: "b \<le> length (walked s)"
    and r: "reach s0 val0 val" and sg: "same_graph s0 s"
    and old: "\<forall>a \<in> set (drop b (walked s)). reach s0 val0 (VRef a) \<and> walkable s0 a"
  shows "\<forall>a \<in> set (drop b (walked s')). reach s0 val0 (VRef a) \<and> walkable s0 a"
proof -
  let ?Q = "\<lambda>t. same_graph s0 t \<and>
                (\<forall>a \<in> set (drop b (walked t)). reach s0 val0 (VRef a) \<and> walkable s0 a)"
  have "?Q s'"
  proof (rule traverse_inner_pres2 [where P = "reach s0 val0" and Q = ?Q, OF _ _ _ t b r])
    fix v a obj and t :: world
    assume pv: "reach s0 val0 v" and q: "?Q t" and bt: "b \<le> length (walked t)"
      and w: "walks v t = Some (a, obj)"
    from w have v: "v = VRef a" and h: "map_of (heap t) a = Some obj" and e: "extensible obj"
      by (simp_all add: walks_Some)
    from q h have h0: "map_of (heap s0) a = Some obj" by (simp add: same_graph_def)
    with e have "walkable s0 a" by (simp add: walkable_def)
    with pv v q bt show "?Q (enter a obj t)" by simp
  next
    fix v a obj c ds and t :: world
    assume pv: "reach s0 val0 v" and q: "?Q t" and w: "walks v t = Some (a, obj)"
      and rd: "(c, ds) \<in> set (reads (body obj))"
    from w have v: "v = VRef a" and h: "map_of (heap t) a = Some obj" and e: "extensible obj"
      by (simp_all add: walks_Some)
    from q h have h0: "map_of (heap s0) a = Some obj" by (simp add: same_graph_def)
    from pv v have "reach s0 val0 (VRef a)" by simp
    then show "reach s0 val0 c" using h0 e rd by (rule reach_child)
  next
    fix a obj c ds and t :: world
    assume "?Q t"
    then show "?Q (touch ds t)" by simp
  next
    from sg old show "?Q s" by simp
  qed
  then show ?thesis by simp
qed

lemma traverse_log:
  assumes "traverse n val s = Some s'"
  shows "\<exists>new. walked s' = walked s @ new \<and> heap s' = heap s \<and>
           seenObjects s' = marker_ids s new \<and>
           distinct (map (marker_of s) (filter (marked s) new)) \<and>
           handled (length (walked s)) s' val \<and>
           (\<forall>a \<in> set new. children_handled (length (walked s)) s' a) \<and>
           marker_of s' = marker_of s \<and>
           (\<forall>a \<in> set new. reach s val (VRef a) \<and> walkable s a)"
proof -
  let ?s0 = "s\<lparr>seenObjects := {}\<rparr>"
  let ?b = "length (walked s)"
  from assms have t: "traverse_inner n val ?s0 = Some s'" by (simp add: traverse_def)
  have sg0: "same_graph s ?s0" by (simp add: same_graph_def)
  from t have g: "grows ?s0 s'" by (rule traverse_inner_grows)
  then obtain new where new: "walked s' = walked s @ new" by (auto simp add: grows_def)
  from g sg0 have sg: "same_graph s s'" by (auto simp add: grows_def intro: same_graph_trans)
  have "once_inv ?b ?s0" by (simp add: once_inv_def marker_ids_def map_filter_def)
  with t have "once_inv ?b s'" by (rule traverse_inner_once)
  with new sg have "seenObjects s' = marker_ids s new"
    "distinct (map (marker_of s) (filter (marked s) new))"
    by (simp_all add: once_inv_def marker_ids_same_graph marked_same_graph marker_of_same_graph)
  moreover from t have "handled ?b s' val" by (rule traverse_inner_handled) simp
  moreover from t have "\<forall>a \<in> set (drop (length (walked ?s0)) (walked s')). children_handled ?b s' a"
    by (rule traverse_inner_closed) simp
  with new have "\<forall>a \<in> set new. children_handled ?b s' a" by simp
  moreover from sg have "heap s' = heap s" "marker_of s' = marker_of s"
    by (simp_all add: same_graph_def marker_of_same_graph)
  moreover have "\<forall>a \<in> set (drop ?b (walked s')). reach s val (VRef a) \<and> walkable s a"
    by (rule traverse_inner_within [OF t _ reach.start sg0]) simp_all
  with new have "\<forall>a \<in> set new. reach s val (VRef a) \<and> walkable s a" by simp
  ultimately show ?thesis using new by blast
qed

text \<open>What the walk has done for a value at its end, in terms of the log.\<close>

lemma handled_covered:
  assumes h: "handled b s' v" and sn: "seenObjects s' = marker_ids s (drop b (walked s'))"
    and mk: "marker_of s' = marker_of s" and hp: "heap s' = heap s"
  shows "covered s (drop b (walked s')) v"
  unfolding covered_def
proof (intro allI impI)
  fix c
  assume "v = VRef c \<and> walkable s c"
  then have v: "v = VRef c" and wk: "walkable s c" by simp_all
  from wk hp obtain cobj where o: "map_of (heap s') c = Some cobj" "extensible cobj"
    by (auto simp add: walkable_def split: option.splits)
  show "c \<in> set (drop b (walked s')) \<or>
        (marked s c \<and> (\<exists>a \<in> set (drop b (walked s')). marker_of s a = marker_of s c))"
  proof (cases "walks (VRef c) s'")
    case (Some p)
    with h v have "c \<in> set (drop b (walked s'))" by (auto simp add: handled_def walks_Some)
    then show ?thesis by simp
  next
    case None
    with o have "already_seen cobj s'" by (simp add: walks_def split: if_splits)
    with o(1) obtain i where i: "marker_of s' c = Some i" "i \<in> seenObjects s'"
      by (auto simp add: already_seen_marker split: option.splits)
    with sn obtain a where a: "a \<in> set (drop b (walked s'))" "marker_of s a = Some i"
      by (auto simp add: marker_ids_iff)
    from i(1) mk have "marker_of s c = Some i" by simp
    with a show ?thesis by (auto simp add: marked_def)
  qed
qed

lemma children_handled_covered:
  assumes ch: "children_handled b s' a" and o: "map_of (heap s) a = Some obj"
    and v: "v \<in> children (body obj)"
    and sn: "seenObjects s' = marker_ids s (drop b (walked s'))"
    and mk: "marker_of s' = marker_of s" and hp: "heap s' = heap s"
  shows "covered s (drop b (walked s')) v"
proof -
  from v obtain ds where "(v, ds) \<in> set (reads (body obj))" using child_reads by blast
  with ch o hp have "handled b s' v" by (auto simp add: children_handled_def)
  then show ?thesis using sn mk hp by (rule handled_covered)
qed

text \<open>With unique markers, a composite that is covered is in the log.\<close>

lemma covered_walked:
  assumes c: "covered s new (VRef c)" and r: "reach s val (VRef c)" and wk: "walkable s c"
    and u: "unique_markers s val"
    and within: "\<forall>a \<in> set new. reach s val (VRef a) \<and> walkable s a"
  shows "c \<in> set new"
proof -
  from c wk have "c \<in> set new \<or> (marked s c \<and> (\<exists>a \<in> set new. marker_of s a = marker_of s c))"
    by (simp add: covered_def)
  then show ?thesis
  proof
    assume "c \<in> set new"
    then show ?thesis .
  next
    assume "marked s c \<and> (\<exists>a \<in> set new. marker_of s a = marker_of s c)"
    then obtain a where m: "marked s c" and a: "a \<in> set new" "marker_of s a = marker_of s c"
      by blast
    from within a(1) have "reach s val (VRef a)" "walkable s a" by simp_all
    with u r wk m a(2) have "a = c" unfolding unique_markers_def by blast
    with a(1) show ?thesis by simp
  qed
qed

lemma reach_walked:
  assumes r: "reach s val v"
    and cv: "covered s new val"
    and cl: "\<forall>a obj v. a \<in> set new \<and> map_of (heap s) a = Some obj \<and> v \<in> children (body obj) \<longrightarrow>
               covered s new v"
    and u: "unique_markers s val"
    and within: "\<forall>a \<in> set new. reach s val (VRef a) \<and> walkable s a"
  shows "covered s new v \<and> (\<forall>c. v = VRef c \<and> walkable s c \<longrightarrow> c \<in> set new)"
  using r
proof (induction rule: reach.induct)
  case start
  have "\<forall>c. val = VRef c \<and> walkable s c \<longrightarrow> c \<in> set new"
  proof (intro allI impI)
    fix c
    assume h: "val = VRef c \<and> walkable s c"
    then have "reach s val (VRef c)" using reach.start [of s val] by simp
    with cv h show "c \<in> set new" using covered_walked [OF _ _ _ u within, of c] by simp
  qed
  with cv show ?case by simp
next
  case (step a obj v)
  from step.hyps(2,3) have wa: "walkable s a" by (simp add: walkable_def)
  with step.IH have a: "a \<in> set new" by simp
  with cl step.hyps(2,4) have c: "covered s new v" by blast
  have rv: "reach s val v" by (rule reach.step [OF step.hyps(1,2,3,4)])
  have "\<forall>c. v = VRef c \<and> walkable s c \<longrightarrow> c \<in> set new"
  proof (intro allI impI)
    fix c
    assume "v = VRef c \<and> walkable s c"
    with c rv show "c \<in> set new" using covered_walked [OF _ _ _ u within, of c] by simp
  qed
  with c show ?case by simp
qed

section \<open>The edge bookkeeping is kept by every operation\<close>

lemma edges_ok_same:
  assumes "deps (watchers t w) = deps (watchers s w)" "newDeps (watchers t w) = newDeps (watchers s w)"
    "depIds (watchers t w) = depIds (watchers s w)" "newDepIds (watchers t w) = newDepIds (watchers s w)"
    "\<And>d. id_dep (depStore t d) = id_dep (depStore s d)"
  shows "edges_ok w t = edges_ok w s"
  using assms by (simp add: edges_ok_def dep_ids_def)

lemma edges_ok_simple [simp]:
  "edges_ok w' (pushTarget w s) = edges_ok w' s"
  "edges_ok w' (popTarget s) = edges_ok w' s"
  "edges_ok w' (queueWatcher w s) = edges_ok w' s"
  "edges_ok w' (warn m v s) = edges_ok w' s"
  "edges_ok w' (enter a obj s) = edges_ok w' s"
  "edges_ok w' (removeSub d w s) = edges_ok w' s"
  "edges_ok w' (upd_watcher w (\<lambda>x. x\<lparr>value_w := val\<rparr>) s) = edges_ok w' s"
  "edges_ok w' (upd_watcher w (\<lambda>x. x\<lparr>dirty := b\<rparr>) s) = edges_ok w' s"
  "edges_ok w' (upd_watcher w (\<lambda>x. x\<lparr>active := b\<rparr>) s) = edges_ok w' s"
  "edges_ok w' (s\<lparr>seenObjects := X\<rparr>) = edges_ok w' s"
  by (rule edges_ok_same; simp)+

lemma dep_depend_edges_ok: "edges_ok w' s \<Longrightarrow> edges_ok w' (dep_depend d s)"
  by (simp add: dep_depend_def addDep_edges_ok split: option.split)

lemma fold_dep_depend_edges_ok: "edges_ok w' s \<Longrightarrow> edges_ok w' (fold dep_depend ds s)"
  by (induction ds arbitrary: s) (simp_all add: dep_depend_edges_ok)

lemma touch_edges_ok: "edges_ok w' s \<Longrightarrow> edges_ok w' (touch ds s)"
  by (simp add: touch_def fold_dep_depend_edges_ok)

lemma depend_edges_ok: "edges_ok w' s \<Longrightarrow> edges_ok w' (depend w s)"
  by (simp add: depend_def fold_dep_depend_edges_ok)

lemma traverse_edges_ok: "traverse n val s = Some s' \<Longrightarrow> edges_ok w' s \<Longrightarrow> edges_ok w' s'"
  unfolding traverse_def
  by (erule traverse_inner_pres [where Q = "edges_ok w'", rotated 2]) (simp_all add: touch_edges_ok)

lemma fold_removeSub_edges_ok [simp]:
  "edges_ok w' (fold (\<lambda>d. removeSub d w) ds s) = edges_ok w' s"
  by (induction ds arbitrary: s) simp_all

lemma teardown_edges_ok: "edges_ok w' s \<Longrightarrow> edges_ok w' (teardown w s)"
proof -
  assume ok: "edges_ok w' s"
  have "\<And>t. edges_ok w' (t\<lparr>vms := X\<rparr>) = edges_ok w' t" for X
    by (rule edges_ok_same) simp_all
  with ok show ?thesis by (simp add: teardown_def Let_def)
qed

lemma call_getter_edges_ok:
  "env_keeps (edges_ok w') E \<Longrightarrow> edges_ok w' s \<Longrightarrow> edges_ok w' (snd (call_getter E g v s))"
  by (cases g) (simp_all add: call_getter_def env_keeps_def)

lemma get_edges_ok:
  assumes "env_keeps (edges_ok w') E" and "edges_ok w' s" and "get E n w s = Some (r, s')"
  shows "edges_ok w' s'"
proof -
  obtain r2 s2 where g: "call_getter E (getter (watchers s w)) (vm (watchers s w)) (pushTarget w s) = (r2, s2)"
    by (cases "call_getter E (getter (watchers s w)) (vm (watchers s w)) (pushTarget w s)")
  from assms(1,2) have "edges_ok w' (snd (call_getter E (getter (watchers s w)) (vm (watchers s w)) (pushTarget w s)))"
    by (intro call_getter_edges_ok) simp_all
  with g have ok2: "edges_ok w' s2" by simp
  show ?thesis
  proof (cases r2)
    case (Inl e)
    with g assms(3) have "s' = s2" by (simp add: get_def)
    with ok2 show ?thesis by simp
  next
    case (Inr val)
    show ?thesis
    proof (cases "deep (watchers s2 w)")
      case False
      with g Inr assms(3) have "s' = cleanupDeps w (popTarget s2)" by (simp add: get_def)
      with ok2 show ?thesis by (simp add: cleanupDeps_edges_ok)
    next
      case True
      with g Inr assms(3) obtain s3 where t: "traverse n val s2 = Some s3"
        and s': "s' = cleanupDeps w (popTarget s3)"
        by (auto simp add: get_def split: option.splits)
      from t ok2 have "edges_ok w' s3" by (rule traverse_edges_ok)
      with s' show ?thesis by (simp add: cleanupDeps_edges_ok)
    qed
  qed
qed

lemma run_edges_ok:
  assumes k: "env_keeps (edges_ok w') E" and ok: "edges_ok w' s" and r: "run E n w s = Some (r, s')"
  shows "edges_ok w' s'"
proof (cases "active (watchers s w)")
  case False
  with r ok show ?thesis by (simp add: run_def)
next
  case True
  from r True obtain g s1 where g: "get E n w s = Some (g, s1)"
    by (cases "get E n w s") (auto simp add: run_def)
  from k ok g have ok1: "edges_ok w' s1" by (rule get_edges_ok)
  from k have cbk: "\<And>c v new old t. edges_ok w' t \<Longrightarrow> edges_ok w' (snd (cb_call E c v new old t))"
    by (simp add: env_keeps_def)
  have hk: "edges_ok w' t'" if "errorHandler E = Some h" "edges_ok w' t" "h e v t = (r', t')"
    for h e v t r' t'
  proof -
    from k that(1,2) have "edges_ok w' (snd (h e v t))" unfolding env_keeps_def by blast
    with that(3) show ?thesis by simp
  qed
  show ?thesis
  proof (cases g)
    case (Inl e)
    with r True g ok1 show ?thesis by (simp add: run_def)
  next
    case (Inr val)
    let ?s2 = "upd_watcher w (\<lambda>x. x\<lparr>value_w := val\<rparr>) s1"
    let ?c = "cb_call E (cb (watchers ?s2 w)) (vm (watchers ?s2 w)) val (value_w (watchers s1 w)) ?s2"
    from ok1 have "edges_ok w' (snd ?c)" by (intro cbk) simp
    moreover obtain rc s3 where c: "?c = (rc, s3)" by (cases ?c)
    ultimately have ok3: "edges_ok w' s3" by simp
    from r True g Inr c ok1 ok3 show ?thesis
      by (auto simp add: run_def Let_def split: if_splits sum.splits option.splits
          intro: hk [where t = s3])
  qed
qed


lemma update_edges_ok:
  assumes "env_keeps (edges_ok w') E" and "edges_ok w' s" and "update E n w s = Some (r, s')"
  shows "edges_ok w' s'"
proof (cases "lazy (watchers s w)")
  case True
  with assms(2,3) show ?thesis by (auto simp add: update_def)
next
  case False
  show ?thesis
  proof (cases "sync (watchers s w)")
    case True
    with False assms(3) have "run E n w s = Some (r, s')" by (simp add: update_def)
    with assms(1,2) show ?thesis by (rule run_edges_ok)
  next
    case False
    with \<open>\<not> lazy (watchers s w)\<close> assms(2,3) show ?thesis by (auto simp add: update_def)
  qed
qed

lemma evaluate_edges_ok:
  assumes "env_keeps (edges_ok w') E" and "edges_ok w' s" and "evaluate E n w s = Some (r, s')"
  shows "edges_ok w' s'"
proof -
  from assms(3) obtain g s1 where g: "get E n w s = Some (g, s1)"
    by (cases "get E n w s") (auto simp add: evaluate_def)
  from assms(1,2) g have "edges_ok w' s1" by (rule get_edges_ok)
  with assms(3) g show ?thesis
    by (cases g) (auto simp add: evaluate_def)
qed

lemma notify_loop_edges_ok:
  assumes "env_keeps (edges_ok w') E"
  shows "edges_ok w' s \<Longrightarrow> notify_loop E n ws s = Some (r, s') \<Longrightarrow> edges_ok w' s'"
proof (induction ws arbitrary: s)
  case Nil
  then show ?case by simp
next
  case (Cons w ws)
  from Cons.prems(2) obtain u s1 where u: "update E n w s = Some (u, s1)"
    by (cases "update E n w s") auto
  from assms Cons.prems(1) u have ok1: "edges_ok w' s1" by (rule update_edges_ok)
  show ?case
  proof (cases u)
    case (Inl e)
    with Cons.prems(2) u ok1 show ?thesis by simp
  next
    case (Inr x)
    with Cons.prems(2) u have "notify_loop E n ws s1 = Some (r, s')" by simp
    with ok1 show ?thesis by (rule Cons.IH)
  qed
qed

lemma notify_edges_ok:
  "env_keeps (edges_ok w') E \<Longrightarrow> edges_ok w' s \<Longrightarrow> notify E n d s = Some (r, s') \<Longrightarrow>
   edges_ok w' s'"
  unfolding notify_def by (rule notify_loop_edges_ok)

lemma edges_ok_fresh:
  assumes "edges_ok w' s"
    and "deps this = []" "newDeps this = []" "depIds this = {}" "newDepIds this = {}"
    and "\<And>d. id_dep (depStore t d) = id_dep (depStore s d)"
    and "watchers t = (watchers s)(w := this)"
  shows "edges_ok w' t"
  using assms by (cases "w' = w") (simp_all add: edges_ok_def dep_ids_def)

lemma Watcher_init_edges_ok: "edges_ok w' s \<Longrightarrow> edges_ok w' (Watcher_init E v x c opts s)"
  by (erule edges_ok_fresh [where w = "Suc (uid s)"])
    (simp_all add: Watcher_init_watcher Watcher_init_depStore)

lemma Watcher_new_edges_ok:
  assumes k: "env_keeps (edges_ok w') E" and ok: "edges_ok w' s"
    and r: "Watcher_new E n v x c opts s = Some (r, s')"
  shows "edges_ok w' s'"
proof -
  let ?w = "Suc (uid s)"
  let ?s4 = "Watcher_init E v x c opts s"
  from ok have s4: "edges_ok w' ?s4" by (rule Watcher_init_edges_ok)
  show ?thesis
  proof (cases "lazy (watchers ?s4 ?w)")
    case True
    with r s4 show ?thesis by (simp add: Watcher_new_def Let_def)
  next
    case False
    with r obtain g s5 where g: "get E n ?w ?s4 = Some (g, s5)"
      by (cases "get E n ?w ?s4") (auto simp add: Watcher_new_def Let_def)
    from k s4 g have "edges_ok w' s5" by (rule get_edges_ok)
    with r False g show ?thesis by (cases g) (auto simp add: Watcher_new_def Let_def)
  qed
qed

section \<open>Facts about an evaluation\<close>

lemma get_return:
  "call_getter E (getter (watchers s w)) (vm (watchers s w)) (pushTarget w s) = (Inr val, s2) \<Longrightarrow>
   (if deep (watchers s2 w) then traverse n val s2 = Some s3 else s3 = s2) \<Longrightarrow>
   get E n w s = Some (Inr val, cleanupDeps w (popTarget s3))"
  by (simp add: get_def split: if_splits)

lemma get_no_return:
  "call_getter E (getter (watchers s w)) (vm (watchers s w)) (pushTarget w s) = (Inr val, s2) \<Longrightarrow>
   deep (watchers s2 w) \<Longrightarrow> traverse n val s2 = None \<Longrightarrow> get E n w s = None"
  by (simp add: get_def)

lemma get_return_restores:
  assumes "targetStack s2 = w # targetStack s"
    and "if deep (watchers s2 w) then traverse n val s2 = Some s3 else s3 = s2"
  shows "targetStack (cleanupDeps w (popTarget s3)) = targetStack s"
proof -
  from assms(2) have "targetStack s3 = targetStack s2"
    by (auto split: if_splits dest: traverse_stack)
  with assms(1) show ?thesis by simp
qed

lemma get_returns:
  assumes g: "call_getter E (getter (watchers s w)) (vm (watchers s w)) (pushTarget w s) = (Inr val, s2)"
    and st: "targetStack s2 = w # targetStack s"
    and rk: "deep (watchers s2 w) \<longrightarrow> ranked rk s2 val"
  shows "\<exists>n0 s'. (\<forall>m \<ge> n0. get E m w s = Some (Inr val, s')) \<and> targetStack s' = targetStack s"
proof (cases "deep (watchers s2 w)")
  case True
  with rk obtain n0 s3 where t: "\<forall>m \<ge> n0. traverse m val s2 = Some s3"
    using traverse_returns by blast
  let ?s' = "cleanupDeps w (popTarget s3)"
  have "\<forall>m \<ge> n0. get E m w s = Some (Inr val, ?s')"
  proof (intro allI impI)
    fix m assume "n0 \<le> m"
    with t True have "if deep (watchers s2 w) then traverse m val s2 = Some s3 else s3 = s2"
      by simp
    with g show "get E m w s = Some (Inr val, ?s')" by (rule get_return)
  qed
  moreover from t True have "if deep (watchers s2 w) then traverse n0 val s2 = Some s3 else s3 = s2"
    by simp
  with st have "targetStack ?s' = targetStack s" by (rule get_return_restores)
  ultimately show ?thesis by blast
next
  case False
  let ?s' = "cleanupDeps w (popTarget s2)"
  from False have i: "\<And>m. if deep (watchers s2 w) then traverse m val s2 = Some s2 else s2 = s2"
    by simp
  have "\<forall>m \<ge> 0. get E m w s = Some (Inr val, ?s')"
    using get_return [OF g i] by simp
  moreover have "targetStack ?s' = targetStack s"
    using get_return_restores [OF st i] by simp
  ultimately show ?thesis by blast
qed

lemma ranked_heap_cong: "heap t = heap s \<Longrightarrow> ranked rk t val = ranked rk s val"
proof -
  assume h: "heap t = heap s"
  then have p: "plain t = plain s" by (simp add: plain_def fun_eq_iff)
  from h have r: "reach t val = reach s val" by (rule reach_heap_cong)
  show ?thesis unfolding ranked_def p r h ..
qed

text \<open>A walk that comes to the plain array 9 of the example graph, which holds itself,
  does not come back, whatever the depth.\<close>

lemma ex_cycle_inner:
  "map_of (heap t) 9 = Some \<lparr>extensible = True, ob = None, body = Arr [VRef 9]\<rparr> \<Longrightarrow>
   traverse_inner n (VRef 9) t = None"
proof (induction n arbitrary: t)
  case 0
  show ?case by simp
next
  case (Suc n)
  let ?obj = "\<lparr>extensible = True, ob = None, body = Arr [VRef 9]\<rparr>"
  from Suc.prems have w: "walks (VRef 9) t = Some (9, ?obj)"
    by (simp add: walks_Some already_seen_def)
  from Suc.prems have "map_of (heap (touch [] (enter 9 ?obj t))) 9 = Some ?obj" by simp
  then have "traverse_inner n (VRef 9) (touch [] (enter 9 ?obj t)) = None" by (rule Suc.IH)
  with w show ?case by (simp add: traverse_inner_unfold del: traverse_inner.simps)
qed

lemma ex_cycle:
  "map_of (heap t) 9 = Some \<lparr>extensible = True, ob = None, body = Arr [VRef 9]\<rparr> \<Longrightarrow>
   traverse n (VRef 9) t = None"
  unfolding traverse_def by (rule ex_cycle_inner) simp

section \<open>Facts about staging during an evaluation\<close>

lemma dep_depend_fields [simp]:
  "deps (watchers (dep_depend d s) w) = deps (watchers s w)"
  "depIds (watchers (dep_depend d s) w) = depIds (watchers s w)"
  "deep (watchers (dep_depend d s) w) = deep (watchers s w)"
  by (auto simp add: dep_depend_def addDep_def Let_def split: option.splits)

lemma dep_depend_newDepIds:
  "newDepIds (watchers (dep_depend d s) w) \<subseteq> insert (id_dep (depStore s d)) (newDepIds (watchers s w))"
  by (auto simp add: dep_depend_def addDep_def Let_def split: option.splits if_splits)

lemma dep_depend_subs_other:
  "d' \<noteq> d \<Longrightarrow> subs (depStore (dep_depend d s) d') = subs (depStore s d')"
  by (simp add: dep_depend_def addDep_depStore split: option.splits)

lemma touch_Cons: "touch (d # ds) s = touch ds (dep_depend d s)"
  by (simp add: touch_def)

lemma touch_fields [simp]:
  "deps (watchers (touch ds s) w) = deps (watchers s w)"
  "depIds (watchers (touch ds s) w) = depIds (watchers s w)"
  "deep (watchers (touch ds s) w) = deep (watchers s w)"
  unfolding touch_def by (induction ds arbitrary: s; simp)+

lemma touch_newDepIds:
  "newDepIds (watchers (touch ds s) w) \<subseteq>
     newDepIds (watchers s w) \<union> (\<lambda>d. id_dep (depStore s d)) ` set ds"
proof (induction ds arbitrary: s)
  case Nil
  show ?case by (simp add: touch_def)
next
  case (Cons d ds)
  have "newDepIds (watchers (touch ds (dep_depend d s)) w) \<subseteq>
          newDepIds (watchers (dep_depend d s) w) \<union>
          (\<lambda>d'. id_dep (depStore (dep_depend d s) d')) ` set ds"
    by (rule Cons.IH)
  with dep_depend_newDepIds [of d s w] show ?case by (auto simp add: touch_Cons)
qed

lemma touch_subs_other:
  "d' \<notin> set ds \<Longrightarrow> subs (depStore (touch ds s) d') = subs (depStore s d')"
  by (induction ds arbitrary: s) (simp_all add: touch_def dep_depend_subs_other)

lemma prop_deps_Nil [simp]: "prop_deps s [] = {}"
  by (simp add: prop_deps_def)

lemma prop_deps_mono: "set as \<subseteq> set bs \<Longrightarrow> prop_deps s as \<subseteq> prop_deps s bs"
  by (auto simp add: prop_deps_def)

lemma prop_deps_heap_cong: "heap t = heap s \<Longrightarrow> prop_deps t = prop_deps s"
  by (simp add: prop_deps_def fun_eq_iff)

lemma prop_deps_reads:
  assumes "a \<in> set as" and "map_of (heap s) a = Some obj" and "(c, ds) \<in> set (reads (body obj))"
  shows "set ds \<subseteq> prop_deps s as"
proof -
  from assms(3) have "set ds \<subseteq> (\<Union>(v, ds) \<in> set (reads (body obj)). set ds)" by blast
  also have "\<dots> = (case body obj of Arr xs \<Rightarrow> {}
                     | Obj kvs \<Rightarrow> (\<Union>(v, ds) \<in> ran (map_of kvs). set ds))"
    by (rule reads_deps)
  also have "\<dots> \<subseteq> prop_deps s as"
  proof -
    from assms(1)
    have "(case map_of (heap s) a of None \<Rightarrow> {}
           | Some obj \<Rightarrow> (case body obj of Arr xs \<Rightarrow> {}
                           | Obj kvs \<Rightarrow> (\<Union>(v, ds) \<in> ran (map_of kvs). set ds))) \<subseteq> prop_deps s as"
      unfolding prop_deps_def by (rule UN_upper)
    with assms(2) show ?thesis by simp
  qed
  finally show ?thesis .
qed

lemma staging_mono:
  assumes "X \<subseteq> Y" and "N \<subseteq> A \<union> f ` X" and "\<forall>d. d \<notin> X \<longrightarrow> g d = S d"
  shows "N \<subseteq> A \<union> f ` Y \<and> (\<forall>d. d \<notin> Y \<longrightarrow> g d = S d)"
  using assms by blast

lemma staging_touch:
  assumes "N' \<subseteq> N \<union> f ` D" and "D \<subseteq> X" and "N \<subseteq> A \<union> f ` X"
  shows "N' \<subseteq> A \<union> f ` X"
  using assms by blast

text \<open>What a walk registers stays within the publishers of the properties of the
  composites it enters.\<close>

lemma traverse_inner_staging:
  assumes t: "traverse_inner n val s = Some s'" and b: "b \<le> length (walked s)"
    and sg: "same_graph s0 s"
    and st: "newDepIds (watchers s w) \<subseteq> A \<union> (\<lambda>d. id_dep (depStore s0 d)) ` prop_deps s0 (drop b (walked s))"
    and sb: "\<forall>d. d \<notin> prop_deps s0 (drop b (walked s)) \<longrightarrow> subs (depStore s d) = S d"
  shows "newDepIds (watchers s' w) \<subseteq> A \<union> (\<lambda>d. id_dep (depStore s0 d)) ` prop_deps s0 (drop b (walked s')) \<and>
         (\<forall>d. d \<notin> prop_deps s0 (drop b (walked s')) \<longrightarrow> subs (depStore s' d) = S d) \<and>
         deps (watchers s' w) = deps (watchers s w) \<and>
         depIds (watchers s' w) = depIds (watchers s w)"
proof -
  let ?I = "\<lambda>d. id_dep (depStore s0 d)"
  let ?Q = "\<lambda>t. same_graph s0 t \<and>
                newDepIds (watchers t w) \<subseteq> A \<union> ?I ` prop_deps s0 (drop b (walked t)) \<and>
                (\<forall>d. d \<notin> prop_deps s0 (drop b (walked t)) \<longrightarrow> subs (depStore t d) = S d) \<and>
                deps (watchers t w) = deps (watchers s w) \<and>
                depIds (watchers t w) = depIds (watchers s w)"
  have "?Q s'"
  proof (rule traverse_inner_pres2 [where P = "\<lambda>v. True" and Q = ?Q, OF _ _ _ t b])
    fix v a obj and t :: world
    assume q: "?Q t" and bt: "b \<le> length (walked t)"
    from bt have "set (drop b (walked t)) \<subseteq> set (drop b (walked (enter a obj t)))" by auto
    then have m: "prop_deps s0 (drop b (walked t)) \<subseteq> prop_deps s0 (drop b (walked (enter a obj t)))"
      by (rule prop_deps_mono)
    from q have 1: "newDepIds (watchers (enter a obj t) w) \<subseteq>
                      A \<union> ?I ` prop_deps s0 (drop b (walked t))"
      and 2: "\<forall>d. d \<notin> prop_deps s0 (drop b (walked t)) \<longrightarrow>
                  subs (depStore (enter a obj t) d) = S d"
      by simp_all
    from staging_mono [OF m 1 2] q show "?Q (enter a obj t)"
      by (simp del: enter_simps(5))
  next
    fix a obj c ds and t :: world
    assume q: "?Q t" and h: "map_of (heap t) a = Some obj" and a: "a \<in> set (drop b (walked t))"
      and r: "(c, ds) \<in> set (reads (body obj))"
    from q h have h0: "map_of (heap s0) a = Some obj" by (simp add: same_graph_def)
    from a h0 r have ds: "set ds \<subseteq> prop_deps s0 (drop b (walked t))" by (rule prop_deps_reads)
    from q have ids: "\<And>d. id_dep (depStore t d) = ?I d" by (simp add: same_graph_def)
    have tn: "newDepIds (watchers (touch ds t) w) \<subseteq> newDepIds (watchers t w) \<union> ?I ` set ds"
      using touch_newDepIds [of ds t w] by (simp add: ids)
    from q have qn: "newDepIds (watchers t w) \<subseteq> A \<union> ?I ` prop_deps s0 (drop b (walked t))"
      by simp
    have n: "newDepIds (watchers (touch ds t) w) \<subseteq>
               A \<union> ?I ` prop_deps s0 (drop b (walked t))"
      by (rule staging_touch [OF tn ds qn])
    have "\<forall>d. d \<notin> prop_deps s0 (drop b (walked t)) \<longrightarrow> subs (depStore (touch ds t) d) = S d"
    proof (intro allI impI)
      fix d
      assume d: "d \<notin> prop_deps s0 (drop b (walked t))"
      with ds have "d \<notin> set ds" by blast
      then have "subs (depStore (touch ds t) d) = subs (depStore t d)" by (rule touch_subs_other)
      with q d show "subs (depStore (touch ds t) d) = S d" by simp
    qed
    with q n show "?Q (touch ds t)" by simp
  next
    from sg st sb show "?Q s" by simp
  qed simp_all
  then show ?thesis by simp
qed

lemma get_clears_staging:
  "get E n w s = Some (Inr val, s') \<Longrightarrow>
   newDepIds (watchers s' w) = {} \<and> newDeps (watchers s' w) = []"
  by (auto simp add: get_def Let_def cleanupDeps_watchers split: prod.splits sum.splits option.splits if_splits)

lemma get_reads_dropped:
  assumes e: "newDepIds (watchers s w) = {}"
    and t: "if deep (watchers s w) then traverse n val (touch ds (pushTarget w s)) = Some s3
            else s3 = touch ds (pushTarget w s)"
  shows "\<exists>new. walked s3 = walked s @ new \<and> (\<not> deep (watchers s w) \<longrightarrow> new = []) \<and>
           newDepIds (watchers s3 w) \<subseteq> (\<lambda>d. id_dep (depStore s d)) ` (set ds \<union> prop_deps s new) \<and>
           (\<forall>d. d \<notin> set ds \<union> prop_deps s new \<longrightarrow> subs (depStore s3 d) = subs (depStore s d)) \<and>
           deps (watchers s3 w) = deps (watchers s w) \<and>
           (\<forall>d. id_dep (depStore s3 d) = id_dep (depStore s d))"
proof -
  let ?I = "\<lambda>d. id_dep (depStore s d)"
  let ?s2 = "touch ds (pushTarget w s)"
  have n2: "newDepIds (watchers ?s2 w) \<subseteq> ?I ` set ds"
    using touch_newDepIds [of ds "pushTarget w s" w] e by simp
  have s2: "\<forall>d. d \<notin> set ds \<longrightarrow> subs (depStore ?s2 d) = subs (depStore s d)"
    by (simp add: touch_subs_other)
  show ?thesis
  proof (cases "deep (watchers s w)")
    case False
    with t have "s3 = ?s2" by simp
    with False n2 s2 show ?thesis by (intro exI [of _ "[]"]) simp
  next
    case True
    with t have tr: "traverse n val ?s2 = Some s3" by simp
    let ?s0 = "?s2\<lparr>seenObjects := {}\<rparr>"
    let ?b = "length (walked s)"
    from tr have ti: "traverse_inner n val ?s0 = Some s3" by (simp add: traverse_def)
    then have "grows ?s0 s3" by (rule traverse_inner_grows)
    then obtain new where new: "walked s3 = walked s @ new"
      and ids: "\<forall>d. id_dep (depStore s3 d) = ?I d"
      by (auto simp add: grows_def same_graph_def)
    from new have dr: "drop ?b (walked s3) = new" by simp
    have pd: "prop_deps ?s0 = prop_deps s" by (rule prop_deps_heap_cong) simp
    have I0: "(\<lambda>d. id_dep (depStore ?s0 d)) = ?I" by (simp add: fun_eq_iff)
    have "newDepIds (watchers s3 w) \<subseteq>
            ?I ` set ds \<union> (\<lambda>d. id_dep (depStore ?s0 d)) ` prop_deps ?s0 (drop ?b (walked s3)) \<and>
          (\<forall>d. d \<notin> prop_deps ?s0 (drop ?b (walked s3)) \<longrightarrow>
               subs (depStore s3 d) = subs (depStore ?s2 d)) \<and>
          deps (watchers s3 w) = deps (watchers ?s0 w) \<and>
          depIds (watchers s3 w) = depIds (watchers ?s0 w)"
      using n2 by (intro traverse_inner_staging [OF ti]) simp_all
    then have a: "newDepIds (watchers s3 w) \<subseteq> ?I ` set ds \<union> ?I ` prop_deps s new"
      and b: "\<forall>d. d \<notin> prop_deps s new \<longrightarrow> subs (depStore s3 d) = subs (depStore ?s2 d)"
      and c: "deps (watchers s3 w) = deps (watchers s w)"
      unfolding pd I0 dr by simp_all
    from a have a': "newDepIds (watchers s3 w) \<subseteq> ?I ` (set ds \<union> prop_deps s new)" by blast
    from b s2 have b': "\<forall>d. d \<notin> set ds \<union> prop_deps s new \<longrightarrow>
                          subs (depStore s3 d) = subs (depStore s d)"
      by simp
    from True new a' b' c ids show ?thesis by (intro exI [of _ new]) simp
  qed
qed

lemma get_drops_unread:
  assumes e: "newDepIds (watchers s w) = {}"
    and g: "call_getter E (getter (watchers s w)) (vm (watchers s w)) (pushTarget w s) =
              (Inr val, touch ds (pushTarget w s))"
    and t: "if deep (watchers s w) then traverse n val (touch ds (pushTarget w s)) = Some s3
            else s3 = touch ds (pushTarget w s)"
  shows "get E n w s = Some (Inr val, cleanupDeps w (popTarget s3)) \<and>
         (\<exists>new. walked (cleanupDeps w (popTarget s3)) = walked s @ new \<and>
            (\<not> deep (watchers s w) \<longrightarrow> new = []) \<and>
            depIds (watchers (cleanupDeps w (popTarget s3)) w) \<subseteq>
              (\<lambda>d. id_dep (depStore s d)) ` (set ds \<union> prop_deps s new) \<and>
            (\<forall>d. d \<in> set (deps (watchers s w)) \<and>
                 id_dep (depStore s d) \<notin> (\<lambda>d. id_dep (depStore s d)) ` (set ds \<union> prop_deps s new) \<and>
                 count_list (subs (depStore s d)) w \<le> 1 \<longrightarrow>
                 w \<notin> set (subs (depStore (cleanupDeps w (popTarget s3)) d)) \<and>
                 id_dep (depStore s d) \<notin> depIds (watchers (cleanupDeps w (popTarget s3)) w) \<and>
                 (\<forall>E' n'. notify E' n' d (cleanupDeps w (popTarget s3)) =
                           notify_loop E' n' (removeAll w (subs (depStore s d)))
                             (cleanupDeps w (popTarget s3)))))"
proof
  let ?I = "\<lambda>d. id_dep (depStore s d)"
  let ?x = "popTarget s3"
  let ?s' = "cleanupDeps w ?x"
  from t have "if deep (watchers (touch ds (pushTarget w s)) w)
               then traverse n val (touch ds (pushTarget w s)) = Some s3
               else s3 = touch ds (pushTarget w s)"
    by simp
  with g show "get E n w s = Some (Inr val, ?s')" by (rule get_return)
  from get_reads_dropped [OF e t] obtain new where new: "walked s3 = walked s @ new"
    and sh: "\<not> deep (watchers s w) \<longrightarrow> new = []"
    and st: "newDepIds (watchers s3 w) \<subseteq> ?I ` (set ds \<union> prop_deps s new)"
    and sb: "\<forall>d. d \<notin> set ds \<union> prop_deps s new \<longrightarrow> subs (depStore s3 d) = subs (depStore s d)"
    and dp: "deps (watchers s3 w) = deps (watchers s w)"
    and ids: "\<forall>d. id_dep (depStore s3 d) = ?I d"
    by (elim exE conjE)
  have w': "walked ?s' = walked s @ new" using new by simp
  have di: "depIds (watchers ?s' w) \<subseteq> ?I ` (set ds \<union> prop_deps s new)"
    using st by (simp add: cleanupDeps_watchers)
  have drop: "\<forall>d. d \<in> set (deps (watchers s w)) \<and>
                 ?I d \<notin> ?I ` (set ds \<union> prop_deps s new) \<and>
                 count_list (subs (depStore s d)) w \<le> 1 \<longrightarrow>
                 w \<notin> set (subs (depStore ?s' d)) \<and>
                 ?I d \<notin> depIds (watchers ?s' w) \<and>
                 (\<forall>E' n'. notify E' n' d ?s' =
                           notify_loop E' n' (removeAll w (subs (depStore s d))) ?s')"
  proof (intro allI impI, elim conjE)
    fix d
    assume d: "d \<in> set (deps (watchers s w))"
      and un: "?I d \<notin> ?I ` (set ds \<union> prop_deps s new)"
      and c: "count_list (subs (depStore s d)) w \<le> 1"
    from un have "d \<notin> set ds \<union> prop_deps s new" by blast
    with sb have sd: "subs (depStore ?x d) = subs (depStore s d)" by simp
    from d dp have d': "d \<in> set (deps (watchers ?x w))" by simp
    from un st ids have n': "id_dep (depStore ?x d) \<notin> newDepIds (watchers ?x w)" by auto
    from c sd have c': "count_list (subs (depStore ?x d)) w \<le> 1" by simp
    from d' n' c' have 1: "w \<notin> set (subs (depStore ?s' d))" by (rule cleanupDeps_dropped)
    from un di have 2: "?I d \<notin> depIds (watchers ?s' w)" by blast
    from d' have "0 < count_list (deps (watchers ?x w)) d"
      using count_list_0_iff [of "deps (watchers ?x w)" d] by simp
    with d' n' c' have "subs (depStore ?s' d) = removeAll w (subs (depStore ?x d))"
      by (simp add: cleanupDeps_subs funpow_remove1_removeAll)
    with sd have "subs (depStore ?s' d) = removeAll w (subs (depStore s d))" by simp
    then have 3: "\<forall>E' n'. notify E' n' d ?s' =
                           notify_loop E' n' (removeAll w (subs (depStore s d))) ?s'"
      by (simp add: notify_def)
    from 1 2 3 show "w \<notin> set (subs (depStore ?s' d)) \<and>
                 ?I d \<notin> depIds (watchers ?s' w) \<and>
                 (\<forall>E' n'. notify E' n' d ?s' =
                           notify_loop E' n' (removeAll w (subs (depStore s d))) ?s')"
      by simp
  qed
  from w' sh di drop
  show "\<exists>new. walked ?s' = walked s @ new \<and>
            (\<not> deep (watchers s w) \<longrightarrow> new = []) \<and>
            depIds (watchers ?s' w) \<subseteq> ?I ` (set ds \<union> prop_deps s new) \<and>
            (\<forall>d. d \<in> set (deps (watchers s w)) \<and>
                 ?I d \<notin> ?I ` (set ds \<union> prop_deps s new) \<and>
                 count_list (subs (depStore s d)) w \<le> 1 \<longrightarrow>
                 w \<notin> set (subs (depStore ?s' d)) \<and>
                 ?I d \<notin> depIds (watchers ?s' w) \<and>
                 (\<forall>E' n'. notify E' n' d ?s' =
                           notify_loop E' n' (removeAll w (subs (depStore s d))) ?s'))"
    by (intro exI [of _ new] conjI)
qed

section \<open>Evaluation of the examples\<close>

lemmas model_defs =
  get_def call_getter_def run_def update_def teardown_def cleanupDeps_def cleanup_step_def
  addDep_def dep_depend_def target_def pushTarget_def popTarget_def queueWatcher_def warn_def
  upd_watcher_def upd_dep_def addSub_def removeSub_def remove_def Let_def

lemmas ex_defs =
  ex_env_def ex_world_def ex_watcher_def ex_fn_def ex_cb_def ex_flag_def ex_stale_def
  ex_handler_def ex_options_def ex_settled_def ex_prod_def ex_handled_def

text \<open>
  Conditional dependency, end to end: subscriber 1 is evaluated with the flag set, the
  flag is cleared, and it is evaluated again. The second evaluation takes it out of the
  registry of publisher 11, and a notification of that publisher then changes nothing.
\<close>

lemma ex_first_evaluation:
  "fst (the (get ex_env 0 1 ex_world)) = Inr (VNum 1) \<and>
   deps (watchers (snd (the (get ex_env 0 1 ex_world))) 1) = [10, 11] \<and>
   subs (depStore (snd (the (get ex_env 0 1 ex_world))) 10) = [1] \<and>
   subs (depStore (snd (the (get ex_env 0 1 ex_world))) 11) = [1]"
  by (simp add: model_defs ex_defs)

lemma ex_second_evaluation:
  "fst (the (get ex_env 0 1 (snd (the (get ex_env 0 1 ex_world))
        \<lparr>heap := [(0, \<lparr>extensible = True, ob = None, body = Arr [VBool False]\<rparr>)]\<rparr>))) = Inr (VNum 0) \<and>
   deps (watchers (snd (the (get ex_env 0 1 (snd (the (get ex_env 0 1 ex_world))
        \<lparr>heap := [(0, \<lparr>extensible = True, ob = None, body = Arr [VBool False]\<rparr>)]\<rparr>)))) 1) = [10] \<and>
   subs (depStore (snd (the (get ex_env 0 1 (snd (the (get ex_env 0 1 ex_world))
        \<lparr>heap := [(0, \<lparr>extensible = True, ob = None, body = Arr [VBool False]\<rparr>)]\<rparr>)))) 11) = [] \<and>
   subs (depStore (snd (the (get ex_env 0 1 (snd (the (get ex_env 0 1 ex_world))
        \<lparr>heap := [(0, \<lparr>extensible = True, ob = None, body = Arr [VBool False]\<rparr>)]\<rparr>)))) 10) = [1]"
  by (simp add: model_defs ex_defs)

section \<open>The example graphs\<close>

lemmas ex2_defs =
  ex_fn2_def ex_env2_def ex_boom_def ex_flags_def ex_branch_def ex_after1_def ex_after2_def
  ex_after3_def

text \<open>The composites of the two graphs, what is reachable in them, and the rank and
  the markers of the first.\<close>

lemma ex_graph_objs:
  "map_of (heap ex_graph) 1 = Some \<lparr>extensible = True, ob = Some 20,
     body = Obj [(''self'', VRef 1, [21]), (''child'', VRef 2, [22])]\<rparr>"
  "map_of (heap ex_graph) 2 = Some \<lparr>extensible = True, ob = None,
     body = Arr [VRef 1, VNum 5, VRef 3, VRef 4]\<rparr>"
  "map_of (heap ex_graph) 3 = Some \<lparr>extensible = False, ob = Some 23, body = Arr [VRef 3]\<rparr>"
  "map_of (heap ex_graph) 4 = Some \<lparr>extensible = True, ob = None, body = Arr []\<rparr>"
  "\<And>d. id_dep (depStore ex_graph d) = d"
  by (simp_all add: ex_graph_def ex_world_def)

lemma ex_shared_objs:
  "map_of (heap ex_shared) 5 = Some \<lparr>extensible = True, ob = None, body = Arr [VRef 6, VRef 7]\<rparr>"
  "map_of (heap ex_shared) 6 = Some \<lparr>extensible = True, ob = Some 30, body = Arr [VRef 8]\<rparr>"
  "map_of (heap ex_shared) 7 = Some \<lparr>extensible = True, ob = Some 30, body = Arr []\<rparr>"
  "map_of (heap ex_shared) 8 = Some \<lparr>extensible = True, ob = None, body = Arr []\<rparr>"
  "\<And>d. id_dep (depStore ex_shared d) = d"
  by (simp_all add: ex_shared_def ex_world_def)

lemma ex_children:
  "children (Obj [(''self'', VRef 1, [21]), (''child'', VRef 2, [22])]) = {VRef 1, VRef 2}"
proof -
  have "map_of [(''self'', VRef 1, [21::nat]), (''child'', VRef 2, [22])] =
          [''child'' \<mapsto> (VRef 2, [22])](''self'' \<mapsto> (VRef 1, [21]))"
    by simp
  then show ?thesis by (simp add: ran_map_upd)
qed

lemma ex_graph_reach:
  "reach ex_graph (VRef 1) v \<Longrightarrow> v \<in> {VRef 1, VRef 2, VRef 3, VRef 4, VNum 5}"
proof (induction rule: reach.induct)
  case start
  show ?case by simp
next
  case (step a obj v)
  from step.IH have "a = 1 \<or> a = 2 \<or> a = 3 \<or> a = 4" by simp
  then show ?case
  proof (elim disjE)
    assume "a = 1"
    with step.hyps(2) ex_graph_objs have "body obj = Obj [(''self'', VRef 1, [21]), (''child'', VRef 2, [22])]" by auto
    with step.hyps(4) show ?thesis by (simp only: ex_children) auto
  next
    assume "a = 2"
    with step.hyps(2) ex_graph_objs have "body obj = Arr [VRef 1, VNum 5, VRef 3, VRef 4]" by auto
    with step.hyps(4) show ?thesis by auto
  next
    assume "a = 3"
    with step.hyps(2) ex_graph_objs have "\<not> extensible obj" by auto
    with step.hyps(3) show ?thesis by simp
  next
    assume "a = 4"
    with step.hyps(2) ex_graph_objs have "body obj = Arr []" by auto
    with step.hyps(4) show ?thesis by simp
  qed
qed

lemma ex_shared_reach:
  "reach ex_shared (VRef 5) v \<Longrightarrow> v \<in> {VRef 5, VRef 6, VRef 7, VRef 8}"
proof (induction rule: reach.induct)
  case start
  show ?case by simp
next
  case (step a obj v)
  from step.IH have "a = 5 \<or> a = 6 \<or> a = 7 \<or> a = 8" by simp
  then show ?case
  proof (elim disjE)
    assume "a = 5"
    with step.hyps(2) ex_shared_objs have "body obj = Arr [VRef 6, VRef 7]" by auto
    with step.hyps(4) show ?thesis by auto
  next
    assume "a = 6"
    with step.hyps(2) ex_shared_objs have "body obj = Arr [VRef 8]" by auto
    with step.hyps(4) show ?thesis by auto
  next
    assume "a = 7"
    with step.hyps(2) ex_shared_objs have "body obj = Arr []" by auto
    with step.hyps(4) show ?thesis by simp
  next
    assume "a = 8"
    with step.hyps(2) ex_shared_objs have "body obj = Arr []" by auto
    with step.hyps(4) show ?thesis by simp
  qed
qed

lemma ex_graph_plain: "plain ex_graph c \<longleftrightarrow> c = 2 \<or> c = 4 \<or> c = 9"
  by (simp add: plain_def ex_graph_def ex_world_def)

lemma ex_shared_plain: "plain ex_shared c \<longleftrightarrow> c = 5 \<or> c = 8"
  by (simp add: plain_def ex_shared_def ex_world_def)

lemma ex_graph_ranked: "ranked ex_rk ex_graph (VRef 1)"
  unfolding ranked_def
proof (intro allI impI, elim conjE)
  fix a obj c
  assume r: "reach ex_graph (VRef 1) (VRef a)" and o: "map_of (heap ex_graph) a = Some obj"
    and e: "extensible obj" "ob obj = None" and c: "VRef c \<in> children (body obj)"
    and p: "plain ex_graph c"
  from ex_graph_reach [OF r] have "a = 1 \<or> a = 2 \<or> a = 3 \<or> a = 4" by simp
  then show "ex_rk c < ex_rk a"
  proof (elim disjE)
    assume "a = 1"
    with o ex_graph_objs have "ob obj = Some 20" by auto
    with e show ?thesis by simp
  next
    assume a: "a = 2"
    with o ex_graph_objs have "body obj = Arr [VRef 1, VNum 5, VRef 3, VRef 4]" by auto
    with c have "c = 1 \<or> c = 3 \<or> c = 4" by auto
    with p have "c = 4" by (auto simp add: ex_graph_plain)
    with a show ?thesis by (simp add: ex_rk_def)
  next
    assume "a = 3"
    with o ex_graph_objs have "\<not> extensible obj" by auto
    with e show ?thesis by simp
  next
    assume "a = 4"
    with o ex_graph_objs have "body obj = Arr []" by auto
    with c show ?thesis by simp
  qed
qed

lemma ex_shared_ranked: "ranked ex_rk ex_shared (VRef 5)"
  unfolding ranked_def
proof (intro allI impI, elim conjE)
  fix a obj c
  assume r: "reach ex_shared (VRef 5) (VRef a)" and o: "map_of (heap ex_shared) a = Some obj"
    and e: "extensible obj" "ob obj = None" and c: "VRef c \<in> children (body obj)"
    and p: "plain ex_shared c"
  from ex_shared_reach [OF r] have "a = 5 \<or> a = 6 \<or> a = 7 \<or> a = 8" by simp
  then show "ex_rk c < ex_rk a"
  proof (elim disjE)
    assume "a = 5"
    with o ex_shared_objs have "body obj = Arr [VRef 6, VRef 7]" by auto
    with c have "c = 6 \<or> c = 7" by auto
    with p show ?thesis by (auto simp add: ex_shared_plain)
  next
    assume "a = 6"
    with o ex_shared_objs have "ob obj = Some 30" by auto
    with e show ?thesis by simp
  next
    assume "a = 7"
    with o ex_shared_objs have "ob obj = Some 30" by auto
    with e show ?thesis by simp
  next
    assume "a = 8"
    with o ex_shared_objs have "body obj = Arr []" by auto
    with c show ?thesis by simp
  qed
qed

lemma ex_graph_marked: "marked ex_graph a \<and> walkable ex_graph a \<longleftrightarrow> a = 1"
  by (auto simp add: marked_def marker_of_def walkable_def ex_graph_def ex_world_def
      split: if_splits)

lemma ex_graph_unique: "unique_markers ex_graph (VRef 1)"
  unfolding unique_markers_def
proof (intro allI impI, elim conjE)
  fix a a'
  assume w: "walkable ex_graph a" "walkable ex_graph a'" and m: "marked ex_graph a"
    and e: "marker_of ex_graph a' = marker_of ex_graph a"
  from m e have "marked ex_graph a'" by (simp add: marked_def)
  with w m show "a' = a" using ex_graph_marked [of a] ex_graph_marked [of a'] by simp
qed

text \<open>The first graph walked from composite 1 with depth 3, and the second walked from
  composite 5 with depth 2.\<close>

lemma ex_graph_walk:
  "traverse 3 (VRef 1) ex_graph \<noteq> None \<and>
   walked (the (traverse 3 (VRef 1) ex_graph)) = [1, 2, 4] \<and>
   seenObjects (the (traverse 3 (VRef 1) ex_graph)) = {20} \<and>
   newDeps (watchers (the (traverse 3 (VRef 1) ex_graph)) 1) = [22, 21]"
  by (simp add: traverse_def eval_nat_numeral traverse_inner_unfold walks_def already_seen_def
      enter_def touch_def model_defs ex_defs ex_graph_def del: traverse_inner.simps)

lemma ex_shared_walk:
  "traverse 2 (VRef 5) ex_shared \<noteq> None \<and>
   walked (the (traverse 2 (VRef 5) ex_shared)) = [5, 7] \<and>
   seenObjects (the (traverse 2 (VRef 5) ex_shared)) = {30}"
  by (simp add: traverse_def eval_nat_numeral traverse_inner_unfold walks_def already_seen_def
      enter_def touch_def model_defs ex_defs ex_shared_def del: traverse_inner.simps)

text \<open>The first graph walked from composite 1 while the deep subscriber 8 evaluates.\<close>

lemma ex_deep_walk:
  "traverse 3 (VRef 1) (pushTarget 8 ex_graph) \<noteq> None \<and>
   walked (the (traverse 3 (VRef 1) (pushTarget 8 ex_graph))) = [1, 2, 4] \<and>
   newDeps (watchers (the (traverse 3 (VRef 1) (pushTarget 8 ex_graph))) 8) = [22, 21]"
  by (simp add: traverse_def eval_nat_numeral traverse_inner_unfold walks_def already_seen_def
      enter_def touch_def model_defs ex_defs ex_graph_def del: traverse_inner.simps)

text \<open>
  Subscriber 9, three evaluations: with the first flag set it reads publishers 10 and 11
  and returns; with both flags set it reads both and its getter throws; with no flag set
  it reads publisher 10 only and returns.
\<close>

lemma ex_after1_eval:
  "get ex_env2 0 9 ex_branch \<noteq> None \<and>
   fst (the (get ex_env2 0 9 ex_branch)) = Inr (VNum 1) \<and>
   watchers ex_after1 9 = ex_watcher\<lparr>id_w := 9, getter := GFn 3, deps := [10, 11], depIds := {10, 11}\<rparr> \<and>
   subs (depStore ex_after1 10) = [9] \<and> subs (depStore ex_after1 11) = [9] \<and>
   (\<forall>d. id_dep (depStore ex_after1 d) = d) \<and>
   targetStack ex_after1 = [] \<and> queue ex_after1 = []"
  by (simp add: model_defs ex_defs ex2_defs) blast

lemma ex_after2_eval:
  "fst (the (get ex_env2 0 9 (ex_after1\<lparr>heap := ex_flags True True\<rparr>))) = Inl (VStr ''boom'') \<and>
   watchers ex_after2 9 = ex_watcher\<lparr>id_w := 9, getter := GFn 3, deps := [10, 11], depIds := {10, 11},
                                      newDeps := [10, 11], newDepIds := {10, 11}\<rparr> \<and>
   subs (depStore ex_after2 10) = [9] \<and> subs (depStore ex_after2 11) = [9] \<and>
   (\<forall>d. id_dep (depStore ex_after2 d) = d) \<and>
   targetStack ex_after2 = [9] \<and> queue ex_after2 = []"
  by (simp add: model_defs ex_defs ex2_defs) blast

lemma ex_after3_eval:
  "fst (the (get ex_env2 0 9 (ex_after2\<lparr>heap := ex_flags False False\<rparr>))) = Inr (VNum 0) \<and>
   watchers ex_after3 9 = ex_watcher\<lparr>id_w := 9, getter := GFn 3, deps := [10, 11], depIds := {10, 11}\<rparr> \<and>
   subs (depStore ex_after3 10) = [9] \<and> subs (depStore ex_after3 11) = [9] \<and>
   targetStack ex_after3 = [9] \<and> queue ex_after3 = [] \<and>
   queue (snd (the (notify ex_env2 0 11 ex_after3))) = [9]"
  by (simp add: model_defs ex_defs ex2_defs notify_def) blast

lemma ex_third_getter:
  "call_getter ex_env2 (getter (watchers (ex_after2\<lparr>heap := ex_flags False False\<rparr>) 9))
     (vm (watchers (ex_after2\<lparr>heap := ex_flags False False\<rparr>) 9))
     (pushTarget 9 (ex_after2\<lparr>heap := ex_flags False False\<rparr>)) =
   (Inr (VNum 0), touch [10] (pushTarget 9 (ex_after2\<lparr>heap := ex_flags False False\<rparr>)))"
  using ex_after2_eval
  by (simp add: call_getter_def touch_def ex_fn2_def ex_env2_def ex_env_def ex_flag_def ex_boom_def
      ex_flags_def ex_watcher_def Let_def)

text \<open>The first graph walked from composite 1 while the deep subscriber 8 evaluates
  for the second time.\<close>

lemma ex_deep_again:
  "traverse 3 (VRef 1) (touch [] (pushTarget 8 ex_deep)) \<noteq> None \<and>
   walked (the (traverse 3 (VRef 1) (touch [] (pushTarget 8 ex_deep)))) = [1, 2, 4] \<and>
   newDeps (watchers (the (traverse 3 (VRef 1) (touch [] (pushTarget 8 ex_deep)))) 8) = [22, 21]"
  by (simp add: traverse_def eval_nat_numeral traverse_inner_unfold walks_def already_seen_def
      enter_def touch_def model_defs ex_defs ex_graph_def ex_deep_def del: traverse_inner.simps)

lemma ex_deep_props: "prop_deps ex_deep [1, 2, 4] = {21, 22}"
proof -
  have "map_of [(''self'', VRef 1, [21::nat]), (''child'', VRef 2, [22])] =
          [''child'' \<mapsto> (VRef 2, [22])](''self'' \<mapsto> (VRef 1, [21]))"
    by simp
  then have "ran (map_of [(''self'', VRef 1, [21::nat]), (''child'', VRef 2, [22])]) =
               {(VRef 1, [21]), (VRef 2, [22])}"
    by (simp add: ran_map_upd)
  then show ?thesis
    by (simp add: prop_deps_def ex_deep_def ex_graph_def ex_world_def) blast
qed

section \<open>The dependency diff\<close>




text \<open>
  C2. \<^verbatim>\<open>addDep\<close> changes nothing when the id of the publisher is in the staging set.
  Otherwise it puts the id into the staging set and appends the reference to the staging
  sequence. The publisher's registry gains the subscriber exactly when the id is in
  neither the staging nor the current set; no other registry changes. A second call with
  the same publisher changes nothing. Consistent edge bookkeeping, which has no id twice
  in the staging or in the current sequence, holds for a subscriber the constructor has
  just initialised, and it is kept, for every subscriber, by \<^verbatim>\<open>addDep\<close>,
  \<^verbatim>\<open>cleanupDeps\<close>, \<^verbatim>\<open>depend\<close> and \<^verbatim>\<open>teardown\<close>, and by \<^verbatim>\<open>get\<close>,
  \<^verbatim>\<open>run\<close>, \<^verbatim>\<open>update\<close>, \<^verbatim>\<open>evaluate\<close> and the constructor whenever the
  functions of the environment keep it.
\<close>

theorem addDep_registers_once:
  "(id_dep (depStore s d) \<in> newDepIds (watchers s w) \<longrightarrow> addDep w d s = s) \<and>
   (id_dep (depStore s d) \<notin> newDepIds (watchers s w) \<longrightarrow>
      watchers (addDep w d s) =
        (watchers s)(w := (watchers s w)
           \<lparr>newDepIds := insert (id_dep (depStore s d)) (newDepIds (watchers s w)),
            newDeps := newDeps (watchers s w) @ [d]\<rparr>)) \<and>
   depStore (addDep w d s) =
     (if id_dep (depStore s d) \<notin> newDepIds (watchers s w) \<and>
         id_dep (depStore s d) \<notin> depIds (watchers s w)
      then (depStore s)(d := (depStore s d)\<lparr>subs := subs (depStore s d) @ [w]\<rparr>)
      else depStore s) \<and>
   addDep w d (addDep w d s) = addDep w d s \<and>
   edges_ok (Suc (uid s)) (Watcher_init E v x c opts s) \<and>
   (edges_ok w' s \<longrightarrow>
      edges_ok w' (addDep w d s) \<and> edges_ok w' (cleanupDeps w s) \<and>
      edges_ok w' (depend w s) \<and> edges_ok w' (teardown w s)) \<and>
   (env_keeps (edges_ok w') E \<and> edges_ok w' s \<longrightarrow>
      (\<forall>r t. get E n w s = Some (r, t) \<longrightarrow> edges_ok w' t) \<and>
      (\<forall>r t. run E n w s = Some (r, t) \<longrightarrow> edges_ok w' t) \<and>
      (\<forall>r t. update E n w s = Some (r, t) \<longrightarrow> edges_ok w' t) \<and>
      (\<forall>r t. evaluate E n w s = Some (r, t) \<longrightarrow> edges_ok w' t) \<and>
      (\<forall>r t. Watcher_new E n v x c opts s = Some (r, t) \<longrightarrow> edges_ok w' t))"
proof -
  have fresh: "edges_ok (Suc (uid s)) (Watcher_init E v x c opts s)"
    by (simp add: edges_ok_def dep_ids_def Watcher_init_watcher)
  have local: "edges_ok w' s \<longrightarrow>
      edges_ok w' (addDep w d s) \<and> edges_ok w' (cleanupDeps w s) \<and>
      edges_ok w' (depend w s) \<and> edges_ok w' (teardown w s)"
    by (simp add: addDep_edges_ok cleanupDeps_edges_ok depend_edges_ok teardown_edges_ok)
  have global: "env_keeps (edges_ok w') E \<and> edges_ok w' s \<longrightarrow>
      (\<forall>r t. get E n w s = Some (r, t) \<longrightarrow> edges_ok w' t) \<and>
      (\<forall>r t. run E n w s = Some (r, t) \<longrightarrow> edges_ok w' t) \<and>
      (\<forall>r t. update E n w s = Some (r, t) \<longrightarrow> edges_ok w' t) \<and>
      (\<forall>r t. evaluate E n w s = Some (r, t) \<longrightarrow> edges_ok w' t) \<and>
      (\<forall>r t. Watcher_new E n v x c opts s = Some (r, t) \<longrightarrow> edges_ok w' t)"
    by (blast intro: get_edges_ok run_edges_ok update_edges_ok evaluate_edges_ok
        Watcher_new_edges_ok)
  from fresh local global addDep_seen [of s d w] addDep_watcher [of s d w]
    addDep_depStore [of w d s] addDep_idem [of w d s]
  show ?thesis by blast
qed

theorem addDep_registers_once_witness:
  "id_dep (depStore ex_world 10) \<notin> newDepIds (watchers ex_world 1) \<and>
   id_dep (depStore ex_world 10) \<notin> depIds (watchers ex_world 1) \<and>
   edges_ok 1 ex_world \<and>
   newDeps (watchers (addDep 1 10 ex_world) 1) = [10] \<and>
   newDepIds (watchers (addDep 1 10 ex_world) 1) = {10} \<and>
   subs (depStore (addDep 1 10 ex_world) 10) = [1] \<and>
   edges_ok 1 (addDep 1 10 ex_world) \<and>
   id_dep (depStore (addDep 1 10 ex_world) 10) \<in> newDepIds (watchers (addDep 1 10 ex_world) 1) \<and>
   addDep 1 10 (addDep 1 10 ex_world) = addDep 1 10 ex_world \<and>
   id_dep (depStore ex_stale 11) \<notin> newDepIds (watchers ex_stale 1) \<and>
   id_dep (depStore ex_stale 11) \<in> depIds (watchers ex_stale 1) \<and>
   subs (depStore (addDep 1 11 ex_stale) 11) = [1] \<and>
   env_keeps (edges_ok 1) ex_env \<and>
   get ex_env 0 1 ex_world \<noteq> None \<and>
   edges_ok 1 (snd (the (get ex_env 0 1 ex_world))) \<and>
   deps (watchers (snd (the (get ex_env 0 1 ex_world))) 1) = [10, 11]"
proof -
  have h: "id_dep (depStore ex_world 10) = 10" "10 \<notin> newDepIds (watchers ex_world 1)"
    "10 \<notin> depIds (watchers ex_world 1)" "edges_ok 1 ex_world"
    "newDeps (watchers ex_world 1) = []" "newDepIds (watchers ex_world 1) = {}"
    "subs (depStore ex_world 10) = []"
    by (simp_all add: ex_defs edges_ok_def dep_ids_def)
  have k: "id_dep (depStore ex_stale 11) = 11" "11 \<notin> newDepIds (watchers ex_stale 1)"
    "11 \<in> depIds (watchers ex_stale 1)" "subs (depStore ex_stale 11) = [1]"
    by (simp_all add: ex_defs)
  have cbk: "edges_ok u (s\<lparr>heap := X\<rparr>) = edges_ok u s" for u s X
    by (rule edges_ok_same) simp_all
  have e: "env_keeps (edges_ok 1) ex_env"
    by (simp add: env_keeps_def ex_env_def ex_fn_def ex_cb_def Let_def dep_depend_edges_ok cbk)
  have g: "get ex_env 0 1 ex_world = Some (fst (the (get ex_env 0 1 ex_world)), snd (the (get ex_env 0 1 ex_world)))"
    by (simp add: model_defs ex_defs)
  from h addDep_registers_once [of ex_world 10 1 ex_env 0 "Fn 0" 0 None 1 0]
  have a: "newDeps (watchers (addDep 1 10 ex_world) 1) = [10]"
    "newDepIds (watchers (addDep 1 10 ex_world) 1) = {10}"
    "subs (depStore (addDep 1 10 ex_world) 10) = [1]"
    "edges_ok 1 (addDep 1 10 ex_world)"
    "addDep 1 10 (addDep 1 10 ex_world) = addDep 1 10 ex_world"
    by (simp_all del: addDep_id)
  from k addDep_registers_once [of ex_stale 11 1 ex_env 0 "Fn 0" 0 None 1 0]
  have c: "subs (depStore (addDep 1 11 ex_stale) 11) = [1]"
    by simp
  from e h(4) g addDep_registers_once [of ex_world 10 1 ex_env 0 "Fn 0" 0 None 1 0]
  have i: "edges_ok 1 (snd (the (get ex_env 0 1 ex_world)))"
    by blast
  have ne: "get ex_env 0 1 ex_world \<noteq> None" by (subst g) simp
  from h k a c e i ne ex_first_evaluation show ?thesis by simp
qed

section \<open>Evaluation and the evaluation-context stack\<close>




section \<open>Invalidation\<close>

text \<open>
  C4, as stated, fails: subscriber 1 of the example world is torn down, so it is
  inactive, and the queue is empty; \<^verbatim>\<open>update\<close> on it then hands it to the scheduler,
  whose queue afterwards holds it.
\<close>

theorem update_inactive_is_queued:
  "\<not> active (watchers (teardown 1 ex_world) 1) \<and>
   queue (teardown 1 ex_world) = [] \<and>
   fst (the (update ex_env 0 1 (teardown 1 ex_world))) = Inr () \<and>
   queue (snd (the (update ex_env 0 1 (teardown 1 ex_world)))) = [1]"
  by (simp add: model_defs ex_defs)

text \<open>
  C4, amended. On an inactive subscriber \<^verbatim>\<open>run\<close> and \<^verbatim>\<open>teardown\<close> return with the
  world unchanged. \<^verbatim>\<open>update\<close> returns normally and changes no publisher and no
  registry; it does not evaluate and calls no callback: the world it leaves is the one
  before with \<^verbatim>\<open>dirty\<close> set when the subscriber is lazy, the world unchanged when it
  is sync and not lazy, and otherwise the world in which \<^verbatim>\<open>queueWatcher\<close> has been
  given the subscriber.
\<close>

theorem inactive_entry_points:
  assumes "\<not> active (watchers s w)"
  shows "run E n w s = Some (Inr (), s) \<and>
         teardown w s = s \<and>
         update E n w s =
           Some (Inr (), if lazy (watchers s w) then upd_watcher w (\<lambda>x. x\<lparr>dirty := True\<rparr>) s
                         else if sync (watchers s w) then s
                         else queueWatcher w s) \<and>
         depStore (snd (the (update E n w s))) = depStore s"
  using assms by (simp add: run_inactive teardown_inactive update_def)

theorem inactive_entry_points_witness:
  "\<not> active (watchers (teardown 1 ex_world) 1) \<and>
   run ex_env 0 1 (teardown 1 ex_world) = Some (Inr (), teardown 1 ex_world) \<and>
   teardown 1 (teardown 1 ex_world) = teardown 1 ex_world \<and>
   update ex_env 0 1 (teardown 1 ex_world) = Some (Inr (), queueWatcher 1 (teardown 1 ex_world)) \<and>
   depStore (snd (the (update ex_env 0 1 (teardown 1 ex_world)))) = depStore (teardown 1 ex_world)"
proof -
  have h: "\<not> active (watchers (teardown 1 ex_world) 1)"
    by (simp add: model_defs ex_defs)
  have k: "\<not> lazy (watchers (teardown 1 ex_world) 1)" "\<not> sync (watchers (teardown 1 ex_world) 1)"
    by (simp_all add: model_defs ex_defs)
  from h k inactive_entry_points [OF h, of ex_env 0] show ?thesis by simp
qed

text \<open>
  C6. \<^verbatim>\<open>update\<close> on a lazy subscriber returns the world with only its
  \<^verbatim>\<open>dirty\<close> field set: nothing is evaluated and nothing is queued. On a subscriber
  that is sync and not lazy it is \<^verbatim>\<open>run\<close>. On any other subscriber it returns the
  world in which \<^verbatim>\<open>queueWatcher\<close> has been given the subscriber.
\<close>

theorem update_dispatch:
  "(lazy (watchers s w) \<longrightarrow>
      update E n w s = Some (Inr (), s\<lparr>watchers := (watchers s)(w := (watchers s w)\<lparr>dirty := True\<rparr>)\<rparr>)) \<and>
   (\<not> lazy (watchers s w) \<and> sync (watchers s w) \<longrightarrow> update E n w s = run E n w s) \<and>
   (\<not> lazy (watchers s w) \<and> \<not> sync (watchers s w) \<longrightarrow>
      update E n w s = Some (Inr (), queueWatcher w s))"
  by (simp add: update_lazy update_sync update_queue)

theorem update_dispatch_witness:
  "lazy (watchers ex_world 4) \<and>
   dirty (watchers (snd (the (update ex_env 0 4 ex_world))) 4) \<and>
   value_w (watchers (snd (the (update ex_env 0 4 ex_world))) 4) = VUndefined \<and>
   queue (snd (the (update ex_env 0 4 ex_world))) = [] \<and>
   \<not> lazy (watchers ex_world 6) \<and> sync (watchers ex_world 6) \<and>
   update ex_env 0 6 ex_world = run ex_env 0 6 ex_world \<and>
   value_w (watchers (snd (the (update ex_env 0 6 ex_world))) 6) = VNum 7 \<and>
   \<not> lazy (watchers ex_world 1) \<and> \<not> sync (watchers ex_world 1) \<and>
   update ex_env 0 1 ex_world = Some (Inr (), queueWatcher 1 ex_world) \<and>
   queue (snd (the (update ex_env 0 1 ex_world))) = [1]"
proof -
  have h: "lazy (watchers ex_world 4)" "\<not> lazy (watchers ex_world 6)" "sync (watchers ex_world 6)"
    "\<not> lazy (watchers ex_world 1)" "\<not> sync (watchers ex_world 1)"
    "value_w (watchers ex_world 4) = VUndefined" "queue ex_world = []"
    by (simp_all add: ex_defs)
  have r: "value_w (watchers (snd (the (run ex_env 0 6 ex_world))) 6) = VNum 7"
    by (simp add: model_defs ex_defs)
  from h r update_dispatch [of ex_world 4 ex_env 0] update_dispatch [of ex_world 6 ex_env 0]
    update_dispatch [of ex_world 1 ex_env 0]
  show ?thesis by simp
qed

text \<open>
  C10. The constructor, given options whose \<^verbatim>\<open>lazy\<close> and \<^verbatim>\<open>sync\<close> are both
  truthy, returns a subscriber with both flags set, without evaluating. On every
  subscriber with both flags set, in any world, \<^verbatim>\<open>update\<close> returns the world with
  only \<^verbatim>\<open>dirty\<close> set, whatever \<^verbatim>\<open>run\<close> would do.
\<close>

theorem lazy_precedes_sync:
  "(truthy (opt_lazy opts) \<and> truthy (opt_sync opts) \<longrightarrow>
      (\<exists>s1. Watcher_new E n v x c (Some opts) s = Some (Inr (Suc (uid s)), s1) \<and>
            lazy (watchers s1 (Suc (uid s))) \<and> sync (watchers s1 (Suc (uid s))) \<and>
            update E m (Suc (uid s)) s1 =
              Some (Inr (), s1\<lparr>watchers := (watchers s1)(Suc (uid s) :=
                                  (watchers s1 (Suc (uid s)))\<lparr>dirty := True\<rparr>)\<rparr>))) \<and>
   (lazy (watchers t w) \<and> sync (watchers t w) \<longrightarrow>
      update E m w t = Some (Inr (), t\<lparr>watchers := (watchers t)(w := (watchers t w)\<lparr>dirty := True\<rparr>)\<rparr>))"
proof (intro conjI impI)
  assume a: "truthy (opt_lazy opts) \<and> truthy (opt_sync opts)"
  obtain s1 where s1: "Watcher_new E n v x c (Some opts) s = Some (Inr (Suc (uid s)), s1)"
    and f: "lazy (watchers s1 (Suc (uid s)))" "sync (watchers s1 (Suc (uid s)))"
    using a Watcher_new_lazy [of opts E n v x c s] by auto
  from f(1) have "update E m (Suc (uid s)) s1 =
     Some (Inr (), s1\<lparr>watchers := (watchers s1)(Suc (uid s) :=
                        (watchers s1 (Suc (uid s)))\<lparr>dirty := True\<rparr>)\<rparr>)"
    by (rule update_lazy)
  with s1 f show "\<exists>s1. Watcher_new E n v x c (Some opts) s = Some (Inr (Suc (uid s)), s1) \<and>
            lazy (watchers s1 (Suc (uid s))) \<and> sync (watchers s1 (Suc (uid s))) \<and>
            update E m (Suc (uid s)) s1 =
              Some (Inr (), s1\<lparr>watchers := (watchers s1)(Suc (uid s) :=
                                  (watchers s1 (Suc (uid s)))\<lparr>dirty := True\<rparr>)\<rparr>)"
    by blast
next
  assume "lazy (watchers t w) \<and> sync (watchers t w)"
  then show "update E m w t = Some (Inr (), t\<lparr>watchers := (watchers t)(w := (watchers t w)\<lparr>dirty := True\<rparr>)\<rparr>)"
    by (simp add: update_lazy)
qed

theorem lazy_precedes_sync_witness:
  "truthy (opt_lazy ex_options) \<and> truthy (opt_sync ex_options) \<and>
   fst (the (Watcher_new ex_env 0 0 (Fn 2) 0 (Some ex_options) ex_world)) = Inr 7 \<and>
   lazy (watchers ex_world 4) \<and> sync (watchers ex_world 4) \<and>
   fst (the (update ex_env 0 4 ex_world)) = Inr () \<and>
   dirty (watchers (snd (the (update ex_env 0 4 ex_world))) 4) \<and>
   value_w (watchers (snd (the (update ex_env 0 4 ex_world))) 4) = VUndefined"
proof -
  have h: "truthy (opt_lazy ex_options)" "truthy (opt_sync ex_options)" "Suc (uid ex_world) = 7"
    "lazy (watchers ex_world 4)" "sync (watchers ex_world 4)"
    "value_w (watchers ex_world 4) = VUndefined"
    by (simp_all add: ex_defs)
  from h lazy_precedes_sync [of ex_options ex_env 0 0 "Fn 2" 0 ex_world 0 ex_world 4]
  show ?thesis by auto
qed

section \<open>Re-evaluation and the callback\<close>

text \<open>
  C5. \<^verbatim>\<open>run\<close> on an inactive subscriber returns with the world unchanged. On an
  active one it evaluates through \<^verbatim>\<open>get\<close>; what \<^verbatim>\<open>get\<close> throws, \<^verbatim>\<open>run\<close>
  throws. When \<^verbatim>\<open>get\<close> returns a value that is \<^verbatim>\<open>!==\<close> the stored one, or is a
  composite, or the subscriber is deep, the value is stored and the callback is applied
  to the new and the old value; if it returns, \<^verbatim>\<open>run\<close> returns in the world the
  callback left. When none of the three holds, \<^verbatim>\<open>run\<close> returns in the world
  \<^verbatim>\<open>get\<close> left, whatever the callback and the error handler are: they are not
  called.
\<close>

theorem run_fires_iff:
  "(\<not> active (watchers s w) \<longrightarrow> run E n w s = Some (Inr (), s)) \<and>
   (active (watchers s w) \<and> get E n w s = None \<longrightarrow> run E n w s = None) \<and>
   (\<forall>e s1. active (watchers s w) \<and> get E n w s = Some (Inl e, s1) \<longrightarrow>
      run E n w s = Some (Inl e, s1)) \<and>
   (\<forall>val s1. active (watchers s w) \<and> get E n w s = Some (Inr val, s1) \<longrightarrow>
      (strict_neq val (value_w (watchers s1 w)) \<or> isObject val \<or> deep (watchers s1 w) \<longrightarrow>
         (\<forall>u s3. cb_call E (cb (watchers s1 w)) (vm (watchers s1 w)) val (value_w (watchers s1 w))
                    (upd_watcher w (\<lambda>x. x\<lparr>value_w := val\<rparr>) s1) = (Inr u, s3) \<longrightarrow>
                 run E n w s = Some (Inr (), s3))) \<and>
      (\<not> (strict_neq val (value_w (watchers s1 w)) \<or> isObject val \<or> deep (watchers s1 w)) \<longrightarrow>
         (\<forall>c h. run (E\<lparr>cb_call := c, errorHandler := h\<rparr>) n w s = Some (Inr (), s1))))"
proof (intro conjI allI impI)
  assume "\<not> active (watchers s w)"
  then show "run E n w s = Some (Inr (), s)" by (rule run_inactive)
next
  assume "active (watchers s w) \<and> get E n w s = None"
  then show "run E n w s = None" by (simp add: run_def)
next
  fix e s1
  assume "active (watchers s w) \<and> get E n w s = Some (Inl e, s1)"
  then show "run E n w s = Some (Inl e, s1)" by (simp add: run_get_throws)
next
  fix val s1 u s3
  assume "active (watchers s w) \<and> get E n w s = Some (Inr val, s1)"
    and "strict_neq val (value_w (watchers s1 w)) \<or> isObject val \<or> deep (watchers s1 w)"
    and "cb_call E (cb (watchers s1 w)) (vm (watchers s1 w)) val (value_w (watchers s1 w))
           (upd_watcher w (\<lambda>x. x\<lparr>value_w := val\<rparr>) s1) = (Inr u, s3)"
  then show "run E n w s = Some (Inr (), s3)"
    using run_fires_ok by blast
next
  fix val s1 c h
  assume "active (watchers s w) \<and> get E n w s = Some (Inr val, s1)"
    and "\<not> (strict_neq val (value_w (watchers s1 w)) \<or> isObject val \<or> deep (watchers s1 w))"
  then show "run (E\<lparr>cb_call := c, errorHandler := h\<rparr>) n w s = Some (Inr (), s1)"
    using run_quiet [where c = c and h = h] by blast
qed

theorem run_fires_iff_witness:
  "active (watchers ex_world 1) \<and>
   fst (the (get ex_env 0 1 ex_world)) = Inr (VNum 1) \<and>
   strict_neq (VNum 1) (value_w (watchers (snd (the (get ex_env 0 1 ex_world))) 1)) \<and>
   fst (the (run ex_env 0 1 ex_world)) = Inr () \<and>
   map_of (heap (snd (the (run ex_env 0 1 ex_world)))) 100 =
     Some \<lparr>extensible = True, ob = None, body = Arr [VNum 1, VUndefined]\<rparr> \<and>
   value_w (watchers (snd (the (run ex_env 0 1 ex_world))) 1) = VNum 1 \<and>
   active (watchers ex_settled 1) \<and>
   fst (the (get ex_env 0 1 ex_settled)) = Inr (VNum 1) \<and>
   \<not> strict_neq (VNum 1) (value_w (watchers (snd (the (get ex_env 0 1 ex_settled))) 1)) \<and>
   run ex_env 0 1 ex_settled = Some (Inr (), snd (the (get ex_env 0 1 ex_settled))) \<and>
   map_of (heap (snd (the (run ex_env 0 1 ex_settled)))) 100 = None \<and>
   active (watchers ex_world 2) \<and>
   run ex_env 0 2 ex_world = Some (Inl (VStr ''boom''), pushTarget 2 ex_world) \<and>
   \<not> active (watchers (teardown 1 ex_world) 1) \<and>
   run ex_env 0 1 (teardown 1 ex_world) = Some (Inr (), teardown 1 ex_world)"
proof -
  let ?s1 = "snd (the (get ex_env 0 1 ex_world))"
  let ?t1 = "snd (the (get ex_env 0 1 ex_settled))"
  let ?s3 = "upd_watcher 1 (\<lambda>x. x\<lparr>value_w := VNum 1\<rparr>) ?s1
               \<lparr>heap := (100, \<lparr>extensible = True, ob = None, body = Arr [VNum 1, VUndefined]\<rparr>) #
                         heap (upd_watcher 1 (\<lambda>x. x\<lparr>value_w := VNum 1\<rparr>) ?s1)\<rparr>"
  have a: "active (watchers ex_world 1)" "active (watchers ex_settled 1)"
    "active (watchers ex_world 2)" "\<not> active (watchers (teardown 1 ex_world) 1)"
    by (simp_all add: model_defs ex_defs)
  have g: "get ex_env 0 1 ex_world = Some (Inr (VNum 1), ?s1)"
    by (simp add: model_defs ex_defs)
  have v: "value_w (watchers ?s1 1) = VUndefined" "cb (watchers ?s1 1) = 0" "vm (watchers ?s1 1) = 0"
    by (simp_all add: model_defs ex_defs)
  have c: "cb_call ex_env (cb (watchers ?s1 1)) (vm (watchers ?s1 1)) (VNum 1) (value_w (watchers ?s1 1))
             (upd_watcher 1 (\<lambda>x. x\<lparr>value_w := VNum 1\<rparr>) ?s1) = (Inr (), ?s3)"
    unfolding v by (simp add: ex_env_def ex_cb_def)
  have g': "get ex_env 0 1 ex_settled = Some (Inr (VNum 1), ?t1)"
    by (simp add: model_defs ex_defs)
  have v': "value_w (watchers ?t1 1) = VNum 1" "\<not> deep (watchers ?t1 1)" "map_of (heap ?t1) 100 = None"
    by (simp_all add: model_defs ex_defs)
  have g2: "get ex_env 0 2 ex_world = Some (Inl (VStr ''boom''), pushTarget 2 ex_world)"
    by (simp add: get_def call_getter_def ex_defs)
  have e: "ex_env\<lparr>cb_call := cb_call ex_env, errorHandler := errorHandler ex_env\<rparr> = ex_env"
    by simp
  have f1: "strict_neq (VNum 1) (value_w (watchers ?s1 1)) \<or> isObject (VNum 1) \<or> deep (watchers ?s1 1)"
    unfolding v by simp
  have f2: "\<not> (strict_neq (VNum 1) (value_w (watchers ?t1 1)) \<or> isObject (VNum 1) \<or> deep (watchers ?t1 1))"
    using v' by simp
  from a(1) g f1 c run_fires_iff [of ex_world 1 ex_env 0]
  have r1: "run ex_env 0 1 ex_world = Some (Inr (), ?s3)"
    by blast
  from a(2) g' f2 run_fires_iff [of ex_settled 1 ex_env 0]
  have "run (ex_env\<lparr>cb_call := cb_call ex_env, errorHandler := errorHandler ex_env\<rparr>) 0 1 ex_settled =
          Some (Inr (), ?t1)"
    by blast
  with e have r2: "run ex_env 0 1 ex_settled = Some (Inr (), ?t1)" by simp
  from a(3) g2 run_fires_iff [of ex_world 2 ex_env 0]
  have r3: "run ex_env 0 2 ex_world = Some (Inl (VStr ''boom''), pushTarget 2 ex_world)"
    by blast
  from a(4) run_fires_iff [of "teardown 1 ex_world" 1 ex_env 0]
  have r4: "run ex_env 0 1 (teardown 1 ex_world) = Some (Inr (), teardown 1 ex_world)"
    by blast
  have w: "map_of (heap ?s3) 100 = Some \<lparr>extensible = True, ob = None, body = Arr [VNum 1, VUndefined]\<rparr>"
    "value_w (watchers ?s3 1) = VNum 1"
    by simp_all
  have gf: "fst (the (get ex_env 0 1 ex_world)) = Inr (VNum 1)"
    "fst (the (get ex_env 0 1 ex_settled)) = Inr (VNum 1)"
    by (simp_all add: model_defs ex_defs)
  show ?thesis
    unfolding r1 r2 r3 r4 using a gf v v' w by simp
qed

text \<open>
  C7, as stated, fails: in a production build, with no error handler, the guarded
  subscriber 3, whose callback throws, re-throws, and no diagnostic is emitted.
\<close>

theorem guarded_throw_production_silent:
  "production ex_prod \<and> errorHandler ex_prod = None \<and>
   user (watchers ex_world 3) \<and> active (watchers ex_world 3) \<and>
   cb_call ex_prod (cb (watchers ex_world 3)) 0 (VNum 7) VUndefined ex_world =
     (Inl (VStr ''callback failed''), ex_world) \<and>
   fst (the (run ex_prod 0 3 ex_world)) = Inl (VStr ''callback failed'') \<and>
   warnings ex_world = [] \<and>
   warnings (snd (the (run ex_prod 0 3 ex_world))) = []"
  by (simp add: model_defs ex_defs)

text \<open>
  C7, amended. Let the callback of an active subscriber be called by \<^verbatim>\<open>run\<close> and
  throw. If the subscriber is guarded and an error handler is configured, the result of
  \<^verbatim>\<open>run\<close> is the result of the handler applied to the thrown value and the
  subscriber's context, so nothing is re-thrown. If it is guarded and no handler is
  configured, \<^verbatim>\<open>run\<close> throws the same value, after \<^verbatim>\<open>warn\<close> has recorded the
  diagnostic, except in a production build, where nothing is recorded. If it is not
  guarded, \<^verbatim>\<open>run\<close> throws the same value in the world the callback left.
\<close>

theorem run_guarded_error_routing:
  assumes "active (watchers s w)"
    and "get E n w s = Some (Inr val, s1)"
    and "strict_neq val (value_w (watchers s1 w)) \<or> isObject val \<or> deep (watchers s1 w)"
    and "cb_call E (cb (watchers s1 w)) (vm (watchers s1 w)) val (value_w (watchers s1 w))
           (upd_watcher w (\<lambda>x. x\<lparr>value_w := val\<rparr>) s1) = (Inl e, s3)"
  shows "(user (watchers s1 w) \<longrightarrow>
            (\<forall>h. errorHandler E = Some h \<longrightarrow> run E n w s = Some (h e (vm (watchers s3 w)) s3)) \<and>
            (errorHandler E = None \<longrightarrow>
               run E n w s =
                 Some (Inl e, if production E then s3
                              else warn (watcher_error_msg (expression (watchers s3 w)))
                                        (vm (watchers s3 w)) s3))) \<and>
         (\<not> user (watchers s1 w) \<longrightarrow> run E n w s = Some (Inl e, s3))"
  using run_fires_throw_handler [OF assms] run_fires_throw_nohandler [OF assms]
    run_fires_throw_unguarded [OF assms]
  by blast

theorem run_guarded_error_routing_witness:
  "active (watchers ex_world 3) \<and> user (watchers ex_world 3) \<and>
   get ex_env 0 3 ex_world = Some (Inr (VNum 7), ex_world) \<and>
   strict_neq (VNum 7) (value_w (watchers ex_world 3)) \<and>
   errorHandler ex_env = None \<and> \<not> production ex_env \<and>
   fst (the (run ex_env 0 3 ex_world)) = Inl (VStr ''callback failed'') \<and>
   warnings (snd (the (run ex_env 0 3 ex_world))) = [(watcher_error_msg ''fn'', 0)] \<and>
   errorHandler ex_handled = Some ex_handler \<and>
   fst (the (run ex_handled 0 3 ex_world)) = Inr () \<and>
   map_of (heap (snd (the (run ex_handled 0 3 ex_world)))) 101 =
     Some \<lparr>extensible = True, ob = None, body = Arr [VStr ''callback failed'', VNum 0]\<rparr> \<and>
   warnings (snd (the (run ex_handled 0 3 ex_world))) = [] \<and>
   active (watchers ex_world 5) \<and> \<not> user (watchers ex_world 5) \<and>
   fst (the (run ex_env 0 5 ex_world)) = Inl (VStr ''callback failed'') \<and>
   warnings (snd (the (run ex_env 0 5 ex_world))) = []"
proof -
  let ?s2 = "\<lambda>w. upd_watcher w (\<lambda>x. x\<lparr>value_w := VNum 7\<rparr>) ex_world"
  have a: "active (watchers ex_world 3)" "user (watchers ex_world 3)"
    "active (watchers ex_world 5)" "\<not> user (watchers ex_world 5)"
    "errorHandler ex_env = None" "\<not> production ex_env" "errorHandler ex_handled = Some ex_handler"
    "warnings ex_world = []"
    by (simp_all add: ex_defs)
  have g: "get ex_env 0 3 ex_world = Some (Inr (VNum 7), ex_world)"
    "get ex_handled 0 3 ex_world = Some (Inr (VNum 7), ex_world)"
    "get ex_env 0 5 ex_world = Some (Inr (VNum 7), ex_world)"
    by (simp_all add: model_defs ex_defs fun_eq_iff)
  have f: "strict_neq (VNum 7) (value_w (watchers ex_world 3)) \<or> isObject (VNum 7) \<or> deep (watchers ex_world 3)"
    "strict_neq (VNum 7) (value_w (watchers ex_world 5)) \<or> isObject (VNum 7) \<or> deep (watchers ex_world 5)"
    by (simp_all add: ex_defs)
  have c3: "cb_call ex_env (cb (watchers ex_world 3)) (vm (watchers ex_world 3)) (VNum 7)
              (value_w (watchers ex_world 3)) (?s2 3) = (Inl (VStr ''callback failed''), ?s2 3)"
    by (simp add: ex_defs)
  have c3h: "cb_call ex_handled (cb (watchers ex_world 3)) (vm (watchers ex_world 3)) (VNum 7)
              (value_w (watchers ex_world 3)) (?s2 3) = (Inl (VStr ''callback failed''), ?s2 3)"
    by (simp add: ex_defs)
  have c5: "cb_call ex_env (cb (watchers ex_world 5)) (vm (watchers ex_world 5)) (VNum 7)
              (value_w (watchers ex_world 5)) (?s2 5) = (Inl (VStr ''callback failed''), ?s2 5)"
    by (simp add: ex_defs)
  have x: "expression (watchers (?s2 3) 3) = ''fn''" "vm (watchers (?s2 3) 3) = 0"
    "warnings (?s2 3) = []" "warnings (?s2 5) = []" "heap (?s2 3) = heap ex_world"
    by (simp_all add: ex_defs)
  from a(2,5,6) x run_guarded_error_routing [OF a(1) g(1) f(1) c3]
  have r1: "run ex_env 0 3 ex_world =
              Some (Inl (VStr ''callback failed''), warn (watcher_error_msg ''fn'') 0 (?s2 3))"
    by simp
  from a(2,7) x run_guarded_error_routing [OF a(1) g(2) f(1) c3h]
  have r2: "run ex_handled 0 3 ex_world = Some (ex_handler (VStr ''callback failed'') 0 (?s2 3))"
    by simp
  from a(4) run_guarded_error_routing [OF a(3) g(3) f(2) c5]
  have r3: "run ex_env 0 5 ex_world = Some (Inl (VStr ''callback failed''), ?s2 5)"
    by simp
  have sn: "strict_neq (VNum 7) (value_w (watchers ex_world 3))"
    by (simp add: ex_defs)
  show ?thesis
    unfolding r1 r2 r3 using a g(1) sn x by (simp add: ex_handler_def)
qed

section \<open>Teardown\<close>

text \<open>
  C9. A second \<^verbatim>\<open>teardown\<close> leaves the world as the first one left it, and after
  the first the subscriber is inactive. The first one, on an active subscriber, takes it
  out of the registry of each publisher once for each occurrence of the publisher in its
  current sequence, and out of no other registry; a publisher of the sequence whose
  registry held the subscriber at most once no longer holds it.
\<close>

theorem teardown_idempotent:
  "teardown w (teardown w s) = teardown w s \<and>
   \<not> active (watchers (teardown w s) w) \<and>
   (active (watchers s w) \<longrightarrow>
      (\<forall>d. subs (depStore (teardown w s) d) =
             (remove1 w ^^ count_list (deps (watchers s w)) d) (subs (depStore s d))) \<and>
      (\<forall>d \<in> set (deps (watchers s w)).
          count_list (subs (depStore s d)) w \<le> 1 \<longrightarrow> w \<notin> set (subs (depStore (teardown w s) d))))"
  using teardown_idem [of w s] teardown_active_after [of w s] teardown_subs [of s w]
    teardown_removed [of s w]
  by blast

theorem teardown_idempotent_witness:
  "active (watchers ex_stale 1) \<and> deps (watchers ex_stale 1) = [10, 11] \<and>
   subs (depStore ex_stale 10) = [1] \<and> subs (depStore ex_stale 11) = [1] \<and>
   teardown 1 (teardown 1 ex_stale) = teardown 1 ex_stale \<and>
   \<not> active (watchers (teardown 1 ex_stale) 1) \<and>
   1 \<notin> set (subs (depStore (teardown 1 ex_stale) 10)) \<and>
   1 \<notin> set (subs (depStore (teardown 1 ex_stale) 11)) \<and>
   subs (depStore (teardown 1 ex_stale) 12) = subs (depStore ex_stale 12)"
proof -
  have h: "active (watchers ex_stale 1)" "deps (watchers ex_stale 1) = [10, 11]"
    "subs (depStore ex_stale 10) = [1]" "subs (depStore ex_stale 11) = [1]"
    by (simp_all add: ex_defs)
  from h teardown_idempotent [of 1 ex_stale] show ?thesis by simp
qed

section \<open>Deep traversal\<close>

text \<open>
  C8, as stated, fails: in the second graph no cycle can be reached from composite 5,
  and composite 6 is reachable from it, extensible and marked. The walk reads the
  elements of 5 from the last one down: it enters 7 and records publisher id 30, then
  finds that id recorded when it comes to 6 and returns at line 268. Neither 6 nor the
  plain array 8 it holds is walked, at any depth that lets the walk come back.
\<close>

theorem shared_marker_skips_composite:
  "ranked ex_rk ex_shared (VRef 5) \<and>
   reach ex_shared (VRef 5) (VRef 6) \<and> walkable ex_shared 6 \<and> marked ex_shared 6 \<and>
   reach ex_shared (VRef 5) (VRef 8) \<and> walkable ex_shared 8 \<and>
   (\<forall>m. traverse (m + 2) (VRef 5) ex_shared = traverse 2 (VRef 5) ex_shared) \<and>
   traverse 2 (VRef 5) ex_shared \<noteq> None \<and>
   walked (the (traverse 2 (VRef 5) ex_shared)) = [5, 7] \<and>
   count_list (walked (the (traverse 2 (VRef 5) ex_shared))) 6 = 0 \<and>
   8 \<notin> set (walked (the (traverse 2 (VRef 5) ex_shared))) \<and>
   seenObjects (the (traverse 2 (VRef 5) ex_shared)) = {30}"
proof -
  have r5: "reach ex_shared (VRef 5) (VRef 5)" by (rule reach.start)
  have r6: "reach ex_shared (VRef 5) (VRef 6)"
    by (rule reach.step [OF r5 ex_shared_objs(1)]) simp_all
  have r8: "reach ex_shared (VRef 5) (VRef 8)"
    by (rule reach.step [OF r6 ex_shared_objs(2)]) simp_all
  have w: "walkable ex_shared 6" "marked ex_shared 6" "walkable ex_shared 8"
    by (simp_all add: walkable_def marked_def marker_of_def ex_shared_def ex_world_def)
  from ex_shared_walk obtain X where X: "traverse 2 (VRef 5) ex_shared = Some X" by auto
  have "\<forall>m. traverse (m + 2) (VRef 5) ex_shared = traverse 2 (VRef 5) ex_shared"
  proof
    fix m
    from X have "traverse (m + 2) (VRef 5) ex_shared = Some X" by (rule traverse_mono) simp
    with X show "traverse (m + 2) (VRef 5) ex_shared = traverse 2 (VRef 5) ex_shared" by simp
  qed
  with ex_shared_ranked r6 r8 w ex_shared_walk show ?thesis by simp
qed

text \<open>
  C8, amended. Let a rank decrease from every plain composite reachable from the value
  to every plain composite it holds, so that every cycle reachable from the value passes
  through a composite with the marker. Then there is a depth from which on
  \<^verbatim>\<open>traverse\<close> returns, always with the same world. The heap is unchanged and the log
  of walked composites is extended by a list \<open>new\<close>. The seen set afterwards holds
  exactly the publisher ids of the marked composites of \<open>new\<close>; no two marked
  composites of \<open>new\<close> have the same publisher id, and no marked composite occurs in
  \<open>new\<close> more than once. Every composite of \<open>new\<close> is extensible and reachable from
  the value. The value, and every value held by a composite of \<open>new\<close>, is covered: it
  is not an extensible composite, or it is in \<open>new\<close>, or it is marked and a composite
  of \<open>new\<close> has its publisher id. When the marked composites the walk can enter carry
  pairwise distinct publisher ids, every extensible composite reachable from the value is
  in \<open>new\<close>, exactly once if it is marked. In any world, a call of \<^verbatim>\<open>_traverse\<close> on a
  value that is not a composite, on a composite that is not extensible, or on a marked
  composite whose id is in the seen set returns with the world unchanged. The result of
  \<^verbatim>\<open>traverse\<close> does not depend on the seen set it starts with.
\<close>

theorem traverse_terminates_once:
  "(ranked rk s val \<longrightarrow>
      (\<exists>n s' new.
         (\<forall>m. n \<le> m \<longrightarrow> traverse m val s = Some s') \<and>
         walked s' = walked s @ new \<and> heap s' = heap s \<and>
         seenObjects s' = marker_ids s new \<and>
         distinct (map (marker_of s) (filter (marked s) new)) \<and>
         (\<forall>a. marked s a \<longrightarrow> count_list new a \<le> 1) \<and>
         (\<forall>a \<in> set new. reach s val (VRef a) \<and> walkable s a) \<and>
         covered s new val \<and>
         (\<forall>a obj v. a \<in> set new \<and> map_of (heap s) a = Some obj \<and> v \<in> children (body obj) \<longrightarrow>
            covered s new v) \<and>
         (unique_markers s val \<longrightarrow>
            (\<forall>c. reach s val (VRef c) \<and> walkable s c \<longrightarrow>
                c \<in> set new \<and> (marked s c \<longrightarrow> count_list new c = 1))))) \<and>
   (\<forall>k t. (\<forall>a. val \<noteq> VRef a) \<longrightarrow> traverse_inner (Suc k) val t = Some t) \<and>
   (\<forall>k t a obj. val = VRef a \<and> map_of (heap t) a = Some obj \<and> \<not> extensible obj \<longrightarrow>
      traverse_inner (Suc k) val t = Some t) \<and>
   (\<forall>k t a obj d. val = VRef a \<and> map_of (heap t) a = Some obj \<and> ob obj = Some d \<and>
      id_dep (depStore t d) \<in> seenObjects t \<longrightarrow> traverse_inner (Suc k) val t = Some t) \<and>
   (\<forall>k X. traverse k val (s\<lparr>seenObjects := X\<rparr>) = traverse k val s)"
proof (intro conjI allI impI)
  assume rk: "ranked rk s val"
  then obtain n s' where ret: "\<forall>m \<ge> n. traverse m val s = Some s'"
    using traverse_returns by blast
  then have tn: "traverse n val s = Some s'" by simp
  let ?b = "length (walked s)"
  from traverse_log [OF tn] obtain new where new: "walked s' = walked s @ new" "heap s' = heap s"
    "seenObjects s' = marker_ids s new" "distinct (map (marker_of s) (filter (marked s) new))"
    "handled ?b s' val"
    "\<forall>a \<in> set new. children_handled ?b s' a"
    "marker_of s' = marker_of s"
    "\<forall>a \<in> set new. reach s val (VRef a) \<and> walkable s a"
    by (elim exE conjE)
  from new(1) have dr: "drop ?b (walked s') = new" by simp
  from new(3) have sn: "seenObjects s' = marker_ids s (drop ?b (walked s'))"
    by (simp add: dr)
  have once: "\<forall>a. marked s a \<longrightarrow> count_list new a \<le> 1"
    using distinct_map_filter_count [OF new(4)] by simp
  have cv: "covered s new val"
    using handled_covered [OF new(5) sn new(7) new(2)] by (simp add: dr)
  have cl: "\<forall>a obj v. a \<in> set new \<and> map_of (heap s) a = Some obj \<and> v \<in> children (body obj) \<longrightarrow>
              covered s new v"
  proof (intro allI impI, elim conjE)
    fix a obj v
    assume a: "a \<in> set new" and o: "map_of (heap s) a = Some obj" and v: "v \<in> children (body obj)"
    from new(6) a have "children_handled ?b s' a" by simp
    then have "covered s (drop ?b (walked s')) v"
      using o v sn new(7) new(2) by (rule children_handled_covered)
    then show "covered s new v" by (simp add: dr)
  qed
  have reachable: "unique_markers s val \<longrightarrow>
     (\<forall>c. reach s val (VRef c) \<and> walkable s c \<longrightarrow>
        c \<in> set new \<and> (marked s c \<longrightarrow> count_list new c = 1))"
  proof (intro impI allI)
    fix c
    assume u: "unique_markers s val" and r: "reach s val (VRef c) \<and> walkable s c"
    from r have r1: "reach s val (VRef c)" and r2: "walkable s c" by simp_all
    from reach_walked [OF r1 cv cl u new(8)] r2 have c: "c \<in> set new" by simp
    then have "0 < count_list new c" using count_list_0_iff [of new c] by simp
    with once have "marked s c \<longrightarrow> count_list new c = 1" by (auto simp add: le_Suc_eq)
    with c show "c \<in> set new \<and> (marked s c \<longrightarrow> count_list new c = 1)" by simp
  qed
  show "\<exists>n s' new.
         (\<forall>m. n \<le> m \<longrightarrow> traverse m val s = Some s') \<and>
         walked s' = walked s @ new \<and> heap s' = heap s \<and>
         seenObjects s' = marker_ids s new \<and>
         distinct (map (marker_of s) (filter (marked s) new)) \<and>
         (\<forall>a. marked s a \<longrightarrow> count_list new a \<le> 1) \<and>
         (\<forall>a \<in> set new. reach s val (VRef a) \<and> walkable s a) \<and>
         covered s new val \<and>
         (\<forall>a obj v. a \<in> set new \<and> map_of (heap s) a = Some obj \<and> v \<in> children (body obj) \<longrightarrow>
            covered s new v) \<and>
         (unique_markers s val \<longrightarrow>
            (\<forall>c. reach s val (VRef c) \<and> walkable s c \<longrightarrow>
                c \<in> set new \<and> (marked s c \<longrightarrow> count_list new c = 1)))"
  proof (intro exI conjI)
    show "\<forall>m. n \<le> m \<longrightarrow> traverse m val s = Some s'" using ret by simp
    show "walked s' = walked s @ new" by (rule new(1))
    show "heap s' = heap s" by (rule new(2))
    show "seenObjects s' = marker_ids s new" by (rule new(3))
    show "distinct (map (marker_of s) (filter (marked s) new))" by (rule new(4))
    show "\<forall>a. marked s a \<longrightarrow> count_list new a \<le> 1" by (rule once)
    show "\<forall>a \<in> set new. reach s val (VRef a) \<and> walkable s a" by (rule new(8))
    show "covered s new val" by (rule cv)
    show "\<forall>a obj v. a \<in> set new \<and> map_of (heap s) a = Some obj \<and> v \<in> children (body obj) \<longrightarrow>
            covered s new v"
      by (rule cl)
    show "unique_markers s val \<longrightarrow>
            (\<forall>c. reach s val (VRef c) \<and> walkable s c \<longrightarrow>
                c \<in> set new \<and> (marked s c \<longrightarrow> count_list new c = 1))"
      by (rule reachable)
  qed
next
  fix k and t :: world
  assume "\<forall>a. val \<noteq> VRef a"
  then have "walks val t = None" by (cases val) (simp_all add: walks_def)
  then show "traverse_inner (Suc k) val t = Some t"
    by (simp add: traverse_inner_unfold del: traverse_inner.simps)
next
  fix k a obj and t :: world
  assume "val = VRef a \<and> map_of (heap t) a = Some obj \<and> \<not> extensible obj"
  then have "walks val t = None" by (simp add: walks_def)
  then show "traverse_inner (Suc k) val t = Some t"
    by (simp add: traverse_inner_unfold del: traverse_inner.simps)
next
  fix k a obj d and t :: world
  assume "val = VRef a \<and> map_of (heap t) a = Some obj \<and> ob obj = Some d \<and>
      id_dep (depStore t d) \<in> seenObjects t"
  then have "walks val t = None" by (simp add: walks_def already_seen_def)
  then show "traverse_inner (Suc k) val t = Some t"
    by (simp add: traverse_inner_unfold del: traverse_inner.simps)
next
  fix k X
  show "traverse k val (s\<lparr>seenObjects := X\<rparr>) = traverse k val s" by (rule traverse_cleared)
qed

theorem traverse_terminates_once_witness:
  "ranked ex_rk ex_graph (VRef 1) \<and> unique_markers ex_graph (VRef 1) \<and> marked ex_graph 1 \<and>
   reach ex_graph (VRef 1) (VRef 1) \<and> walkable ex_graph 1 \<and>
   reach ex_graph (VRef 1) (VRef 4) \<and> walkable ex_graph 4 \<and>
   traverse 3 (VRef 1) ex_graph \<noteq> None \<and>
   walked (the (traverse 3 (VRef 1) ex_graph)) = [1, 2, 4] \<and>
   count_list (walked (the (traverse 3 (VRef 1) ex_graph))) 1 = 1 \<and>
   4 \<in> set (walked (the (traverse 3 (VRef 1) ex_graph))) \<and>
   covered ex_graph (walked (the (traverse 3 (VRef 1) ex_graph))) (VRef 3) \<and>
   seenObjects (the (traverse 3 (VRef 1) ex_graph)) = {20} \<and>
   traverse_inner 1 (VNum 5) ex_graph = Some ex_graph \<and>
   traverse_inner 1 (VRef 3) ex_graph = Some ex_graph \<and>
   traverse_inner 1 (VRef 1) ex_graph = Some ex_graph \<and>
   traverse 3 (VRef 1) (ex_graph\<lparr>seenObjects := {}\<rparr>) = traverse 3 (VRef 1) ex_graph"
proof -
  let ?X = "the (traverse 3 (VRef 1) ex_graph)"
  note o1 = ex_graph_objs(1) and o2 = ex_graph_objs(2) and o3 = ex_graph_objs(3)
    and ids = ex_graph_objs(5)
  have sn: "seenObjects ex_graph = {20, 23}" and wk: "walked ex_graph = []"
    by (simp_all add: ex_graph_def ex_world_def)
  have mk: "marked ex_graph 1" and w1: "walkable ex_graph 1"
    using ex_graph_marked [of 1] by simp_all
  have w2: "walkable ex_graph 2" and w4: "walkable ex_graph 4"
    by (simp_all add: walkable_def ex_graph_objs)
  have r1: "reach ex_graph (VRef 1) (VRef 1)" by (rule reach.start)
  have r2: "reach ex_graph (VRef 1) (VRef 2)"
    by (rule reach.step [OF r1 o1]) (simp_all only: jsobj.simps ex_children, simp)
  have r4: "reach ex_graph (VRef 1) (VRef 4)"
    by (rule reach.step [OF r2 o2]) simp_all
  have ev: "traverse 3 (VRef 1) ex_graph = Some ?X" using ex_graph_walk by auto
  from traverse_terminates_once [of ex_rk ex_graph "VRef 1", THEN conjunct1, rule_format,
      OF ex_graph_ranked]
  obtain n s' new where ret: "\<forall>m. n \<le> m \<longrightarrow> traverse m (VRef 1) ex_graph = Some s'"
    and nw: "walked s' = walked ex_graph @ new"
    and sd: "seenObjects s' = marker_ids ex_graph new"
    and cl: "\<forall>a obj v. a \<in> set new \<and> map_of (heap ex_graph) a = Some obj \<and>
               v \<in> children (body obj) \<longrightarrow> covered ex_graph new v"
    and all: "unique_markers ex_graph (VRef 1) \<longrightarrow>
       (\<forall>c. reach ex_graph (VRef 1) (VRef c) \<and> walkable ex_graph c \<longrightarrow>
          c \<in> set new \<and> (marked ex_graph c \<longrightarrow> count_list new c = 1))"
    by (elim exE conjE)
  from ret have "traverse (max n 3) (VRef 1) ex_graph = Some s'" by simp
  moreover from ev have "traverse (max n 3) (VRef 1) ex_graph = Some ?X"
    by (rule traverse_mono) simp
  ultimately have s': "s' = ?X" by simp
  from nw wk s' have new: "walked ?X = new" by simp
  from all ex_graph_unique r1 w1 mk have c1: "count_list new 1 = 1" by simp
  from all ex_graph_unique r4 w4 have c4: "4 \<in> set new" by simp
  from all ex_graph_unique r2 w2 have "2 \<in> set new" by simp
  moreover have "VRef 3 \<in> children (body \<lparr>extensible = True, ob = None,
                    body = Arr [VRef 1, VNum 5, VRef 3, VRef 4]\<rparr>)"
    by simp
  ultimately have c3: "covered ex_graph new (VRef 3)" using cl o2 by blast
  from traverse_terminates_once [of ex_rk ex_graph "VNum 5"]
  have p5: "traverse_inner 1 (VNum 5) ex_graph = Some ex_graph" by simp
  from traverse_terminates_once [of ex_rk ex_graph "VRef 3"] o3
  have p3: "traverse_inner 1 (VRef 3) ex_graph = Some ex_graph" by simp
  from traverse_terminates_once [of ex_rk ex_graph "VRef 1"] o1 ids sn
  have p1: "traverse_inner 1 (VRef 1) ex_graph = Some ex_graph" by simp
  from traverse_terminates_once [of ex_rk ex_graph "VRef 1"]
  have cl: "traverse 3 (VRef 1) (ex_graph\<lparr>seenObjects := {}\<rparr>) = traverse 3 (VRef 1) ex_graph"
    by blast
  from ex_graph_ranked ex_graph_unique mk r1 w1 r4 w4 ev c1 c4 c3 p5 p3 p1 cl ex_graph_walk
  show ?thesis
    unfolding new [symmetric] by simp
qed

end
